theory Spec2Isabelle
  imports Main
begin

section \<open>Text as Python has it\<close>

text \<open>
  A Python \<open>str\<close> is a sequence of Unicode code points, so a text is a list of code
  points. The three bullet markers of the parser are \<open>-\<close> (45), \<open>*\<close> (42) and the
  bullet U+2022 (8226), which is one character of the text and not three bytes.
\<close>

type_synonym ustring = "nat list"

definition u :: "string \<Rightarrow> ustring" where
  "u s = map of_char s"

definition NL :: nat where
  "NL = 10"

definition SP :: nat where
  "SP = 32"

definition COLON :: nat where
  "COLON = 58"

definition BULLET :: nat where
  "BULLET = 8226"

text \<open>
  \<open>str.strip()\<close> without argument removes the characters for which \<open>str.isspace\<close>
  holds: the code points CPython lists as white space.
\<close>

definition isspace :: "nat \<Rightarrow> bool" where
  "isspace c = ((9 \<le> c \<and> c \<le> 13) \<or> (28 \<le> c \<and> c \<le> 32) \<or> c = 133 \<or> c = 160
     \<or> c = 5760 \<or> (8192 \<le> c \<and> c \<le> 8202) \<or> c = 8232 \<or> c = 8233 \<or> c = 8239
     \<or> c = 8287 \<or> c = 12288)"

definition strip_with :: "(nat \<Rightarrow> bool) \<Rightarrow> ustring \<Rightarrow> ustring" where
  "strip_with p s = rev (dropWhile p (rev (dropWhile p s)))"

definition strip :: "ustring \<Rightarrow> ustring" where
  "strip s = strip_with isspace s"

definition strip_chars :: "ustring \<Rightarrow> ustring \<Rightarrow> ustring" where
  "strip_chars cs s = strip_with (\<lambda>c. c \<in> set cs) s"

text \<open>
  \<open>s.split("\n")\<close>: always at least one piece, the empty text gives one empty piece.
  A character other than the line break goes in front of the first piece of the rest
  (the rest always has one).
\<close>

fun split_nl :: "ustring \<Rightarrow> ustring list" where
  "split_nl [] = [[]]"
| "split_nl (c # cs) =
     (if c = NL then [] # split_nl cs
      else (case split_nl cs of [] \<Rightarrow> [[c]] | l # ls \<Rightarrow> (c # l) # ls))"

definition endswith :: "ustring \<Rightarrow> nat \<Rightarrow> bool" where
  "endswith s c = (s \<noteq> [] \<and> last s = c)"

definition startswith_any :: "ustring \<Rightarrow> nat list \<Rightarrow> bool" where
  "startswith_any s cs = (s \<noteq> [] \<and> hd s \<in> set cs)"

section \<open>The text normalizer\<close>

text \<open>
  \<open>clean(text) = re.sub(r"\n{2,}", "\n", text).strip()\<close>. The substitution scans from
  the left; where a greedy run of two or more line breaks starts, the whole run is
  replaced by one line break; any other character is copied.
\<close>

function resub :: "ustring \<Rightarrow> ustring" where
  "resub [] = []"
| "resub (c # cs) =
     (if c = NL \<and> cs \<noteq> [] \<and> hd cs = NL
      then NL # resub (dropWhile (\<lambda>x. x = NL) cs)
      else c # resub cs)"
  by pat_completeness auto
termination
  by (relation "measure length") (auto simp: less_Suc_eq_le length_dropWhile_le)

definition clean :: "ustring \<Rightarrow> ustring" where
  "clean text = strip (resub text)"

text \<open>A run of two line breaks or more, which the normalizer's result must not have.\<close>

fun has_nl_run :: "ustring \<Rightarrow> bool" where
  "has_nl_run (a # b # cs) = ((a = NL \<and> b = NL) \<or> has_nl_run (b # cs))"
| "has_nl_run [a] = False"
| "has_nl_run [] = False"

section \<open>The section parser\<close>

datatype pyval = Str ustring | Lst "ustring list"

datatype pyerr = AttributeError | KeyError | IndexError | ValueError | OSError

type_synonym sections = "ustring \<rightharpoonup> pyval"

definition K_OVERVIEW :: ustring where
  "K_OVERVIEW = u ''OVERVIEW''"

definition K_DOMAIN :: ustring where
  "K_DOMAIN = u ''DOMAIN''"

definition K_ENABLES :: ustring where
  "K_ENABLES = u ''WHAT THIS DATA ENABLES''"

definition K_LIMITATIONS :: ustring where
  "K_LIMITATIONS = u ''LIMITATIONS''"

definition K_ACTIONS :: ustring where
  "K_ACTIONS = u ''PROFIT IMPROVEMENT ACTIONS''"

definition sections0 :: sections where
  "sections0 = [K_OVERVIEW \<mapsto> Str [], K_DOMAIN \<mapsto> Str [], K_ENABLES \<mapsto> Lst [],
     K_LIMITATIONS \<mapsto> Lst [], K_ACTIONS \<mapsto> Lst []]"

text \<open>
  One turn of the loop body on the state \<open>(current, sections)\<close>. \<open>sections[current]\<close>
  raises \<open>KeyError\<close> on an absent key, \<open>.append\<close> on a \<open>str\<close> raises
  \<open>AttributeError\<close>, and \<open>if current\<close> is false for \<open>None\<close> and for the empty text.
\<close>

definition markers :: "nat list" where
  "markers = [45, BULLET, 42]"

definition strip_set :: ustring where
  "strip_set = [45, BULLET, 42, SP]"

definition entry_of :: "ustring \<Rightarrow> ustring" where
  "entry_of line = strip (strip_chars strip_set line)"

definition is_header :: "sections \<Rightarrow> ustring \<Rightarrow> bool" where
  "is_header secs line = (endswith line COLON \<and> secs (butlast line) \<noteq> None)"

definition body :: "ustring option \<times> sections \<Rightarrow> ustring \<Rightarrow> pyerr + (ustring option \<times> sections)" where
  "body st raw_line =
     (let current = fst st; secs = snd st; line = strip raw_line in
      if is_header secs line
      then Inr (Some (butlast line), secs)
      else (case current of
              None \<Rightarrow> Inr (current, secs)
            | Some cur \<Rightarrow>
                if cur = [] then Inr (current, secs)
                else if startswith_any line markers
                then (case secs cur of
                        None \<Rightarrow> Inl KeyError
                      | Some (Str s) \<Rightarrow> Inl AttributeError
                      | Some (Lst xs) \<Rightarrow> Inr (current, secs(cur \<mapsto> Lst (xs @ [entry_of line]))))
                else (case secs cur of
                        None \<Rightarrow> Inl KeyError
                      | Some (Lst xs) \<Rightarrow> Inr (current, secs)
                      | Some (Str s) \<Rightarrow> Inr (current, secs(cur \<mapsto> Str (s @ SP # line))))))"

fun loop :: "ustring option \<times> sections \<Rightarrow> ustring list \<Rightarrow> pyerr + (ustring option \<times> sections)" where
  "loop st [] = Inr st"
| "loop st (l # ls) = (case body st l of Inl e \<Rightarrow> Inl e | Inr st' \<Rightarrow> loop st' ls)"

definition parse :: "ustring \<Rightarrow> pyerr + sections" where
  "parse raw = (case loop (None, sections0) (split_nl raw) of
                  Inl e \<Rightarrow> Inl e | Inr st \<Rightarrow> Inr (snd st))"

text \<open>
  The spec's wording of a list entry, for comparison with \<open>entry_of\<close>: the marker (the
  first character of the line) and any surrounding white space are stripped, the
  remainder is the entry.
\<close>

definition spec_entry :: "ustring \<Rightarrow> ustring" where
  "spec_entry line = strip (tl line)"

text \<open>
  A well-formed block, in the spec's words: the header line of one of the labels,
  followed by plain lines (neither header nor bullet) when the label is a free-text
  one and by bullet lines when it is a list label. An input of blocks is the lines of
  the blocks one after the other.
\<close>

definition free_text :: "ustring \<Rightarrow> bool" where
  "free_text k = (k = K_OVERVIEW \<or> k = K_DOMAIN)"

definition block_key :: "ustring \<times> ustring list \<Rightarrow> ustring" where
  "block_key b = butlast (strip (fst b))"

definition well_formed_block :: "ustring \<times> ustring list \<Rightarrow> bool" where
  "well_formed_block b =
     (is_header sections0 (strip (fst b))
      \<and> (if free_text (block_key b)
         then list_all (\<lambda>l. \<not> is_header sections0 (strip l) \<and> \<not> startswith_any (strip l) markers) (snd b)
         else list_all (\<lambda>l. startswith_any (strip l) markers) (snd b)))"

definition block_lines :: "(ustring \<times> ustring list) list \<Rightarrow> ustring list" where
  "block_lines bs = concat (map (\<lambda>b. fst b # snd b) bs)"

section \<open>The model client\<close>

text \<open>
  \<open>llama(prompt)\<close> runs \<open>for _ in range(3)\<close>: each turn posts the prompt and either
  returns \<open>r.json().get("response", "")\<close> or, on any exception of the call or of the
  decoding, goes on to the next turn; after the loop it returns the empty text. The
  network is the outcome of the i-th call; the trace records the effects, and the code
  has no other effect than the posts.
\<close>

datatype attempt = Failed | Answered "ustring option"

datatype event = Post ustring | Sleep

fun attempts :: "nat \<Rightarrow> (nat \<Rightarrow> attempt) \<Rightarrow> ustring \<Rightarrow> nat \<Rightarrow> event list \<Rightarrow> ustring \<times> event list" where
  "attempts 0 net prompt i tr = ([], tr)"
| "attempts (Suc n) net prompt i tr =
     (case net i of
        Failed \<Rightarrow> attempts n net prompt (Suc i) (tr @ [Post prompt])
      | Answered r \<Rightarrow> ((case r of None \<Rightarrow> [] | Some t \<Rightarrow> t), tr @ [Post prompt]))"

definition llama :: "(nat \<Rightarrow> attempt) \<Rightarrow> ustring \<Rightarrow> ustring \<times> event list" where
  "llama net prompt = attempts 3 net prompt 0 []"

section \<open>The statistics summarizer\<close>

text \<open>
  The table as pandas holds it: named, typed columns and rows of cells, a missing cell
  being \<open>None\<close>. \<open>df.shape\<close> gives the two counts, \<open>df.isnull().sum().sum()\<close> counts the
  missing cells column by column, and \<open>df.duplicated()\<close> (keep the first) marks a row
  that equals a row seen before it.
\<close>

datatype dtype = Numeric | Object

record 'a dataset =
  columns :: "(ustring \<times> dtype) list"
  rows :: "'a option list list"

record stats =
  n_rows :: nat
  n_cols :: nat
  n_missing :: nat
  n_dup :: nat

definition isnull_sum :: "'a dataset \<Rightarrow> nat list" where
  "isnull_sum d = map (\<lambda>j. length (filter (\<lambda>r. r ! j = None) (rows d))) [0..<length (columns d)]"

fun duplicated_from :: "'b list \<Rightarrow> 'b list \<Rightarrow> bool list" where
  "duplicated_from seen [] = []"
| "duplicated_from seen (r # rs) =
     (if r \<in> set seen then True # duplicated_from seen rs
      else False # duplicated_from (r # seen) rs)"

definition duplicated :: "'b list \<Rightarrow> bool list" where
  "duplicated rs = duplicated_from [] rs"

definition summarize :: "'a dataset \<Rightarrow> stats" where
  "summarize d = \<lparr>n_rows = length (rows d), n_cols = length (columns d),
     n_missing = sum_list (isnull_sum d),
     n_dup = length (filter (\<lambda>b. b) (duplicated (rows d)))\<rparr>"

section \<open>The chart builder\<close>

text \<open>
  \<open>revenue_col\<close> is \<open>"total_price"\<close> when the table has that column, otherwise
  \<open>df.select_dtypes(include=np.number).columns[-1]\<close>, and indexing an empty column
  index raises \<open>IndexError\<close>. The bar chart is drawn from
  \<open>df.groupby("pizza_category")[revenue_col].sum().reset_index()\<close>; when the revenue
  column is \<open>pizza_category\<close> itself, \<open>reset_index\<close> cannot insert a column that is
  already there and raises \<open>ValueError\<close>, which ends the run before the pie chart. A
  chart is kept as its kind and the two columns it plots; its drawing belongs to the
  charting library.
\<close>

datatype chart = Bar ustring ustring | Pie ustring ustring

definition select_numeric :: "(ustring \<times> dtype) list \<Rightarrow> ustring list" where
  "select_numeric cols = map fst (filter (\<lambda>c. snd c = Numeric) cols)"

definition last_column :: "ustring list \<Rightarrow> pyerr + ustring" where
  "last_column names = (case names of [] \<Rightarrow> Inl IndexError | _ # _ \<Rightarrow> Inr (last names))"

definition revenue_col :: "(ustring \<times> dtype) list \<Rightarrow> pyerr + ustring" where
  "revenue_col cols =
     (if u ''total_price'' \<in> set (map fst cols) then Inr (u ''total_price'')
      else last_column (select_numeric cols))"

definition category_chart :: "(ustring \<times> dtype) list \<Rightarrow> ustring \<Rightarrow> pyerr + chart list" where
  "category_chart cols rc =
     (if u ''pizza_category'' \<in> set (map fst cols)
      then (if rc = u ''pizza_category'' then Inl ValueError
            else Inr [Bar (u ''pizza_category'') rc])
      else Inr [])"

definition size_chart :: "(ustring \<times> dtype) list \<Rightarrow> ustring \<Rightarrow> chart list" where
  "size_chart cols rc =
     (if u ''pizza_size'' \<in> set (map fst cols) then [Pie (u ''pizza_size'') rc] else [])"

definition build_charts :: "(ustring \<times> dtype) list \<Rightarrow> pyerr + chart list" where
  "build_charts cols =
     (case revenue_col cols of
        Inl e \<Rightarrow> Inl e
      | Inr rc \<Rightarrow>
          (case category_chart cols rc of
             Inl e \<Rightarrow> Inl e
           | Inr bar \<Rightarrow> Inr (bar @ size_chart cols rc)))"

section \<open>The report assembler\<close>

definition DQ :: nat where
  "DQ = 34"

definition ENDASH :: nat where
  "ENDASH = 8211"

function show_nat :: "nat \<Rightarrow> ustring" where
  "show_nat n = (if n < 10 then [48 + n] else show_nat (n div 10) @ [48 + n mod 10])"
  by pat_completeness auto
termination
  by (relation "measure id") auto

declare show_nat.simps [simp del]

definition li_items :: "ustring list \<Rightarrow> ustring" where
  "li_items xs = concat (map (\<lambda>i. u ''<li>'' @ i @ u ''</li>'') xs)"

definition chart_items :: "ustring list \<Rightarrow> ustring" where
  "chart_items cs = concat (map (\<lambda>c. c @ u ''<br><br>'') cs)"

definition data_quality :: "nat \<Rightarrow> nat \<Rightarrow> nat \<Rightarrow> nat \<Rightarrow> ustring" where
  "data_quality rws cls missing dup =
     u ''<h2>Data Quality</h2>'' @ [NL]
     @ u ''<p>Rows: '' @ show_nat rws @ u '' | Columns: '' @ show_nat cls @ u ''</p>'' @ [NL]
     @ u ''<p>Missing: '' @ show_nat missing @ u '' | Duplicates: '' @ show_nat dup @ u ''</p>''"

definition report_head :: "ustring \<Rightarrow> ustring \<Rightarrow> ustring \<Rightarrow> ustring" where
  "report_head date overview domain =
     [NL] @ u ''<html>'' @ [NL]
     @ u ''<body style='' @ [DQ] @ u ''font-family:Arial;padding:40px;color:#475569'' @ [DQ] @ u ''>'' @ [NL]
     @ u ''<h1 style='' @ [DQ] @ u ''color:#4f46e5'' @ [DQ] @ u ''>AutoInsight AI '' @ [ENDASH]
     @ u '' Professional Business EDA Report</h1>'' @ [NL]
     @ u ''<p><b>Generated:</b> '' @ date @ u ''</p>'' @ [NL, NL]
     @ u ''<h2>Dataset Understanding</h2>'' @ [NL]
     @ u ''<p>'' @ overview @ u ''</p>'' @ [NL, NL]
     @ u ''<h3>Domain</h3>'' @ [NL]
     @ u ''<p>'' @ domain @ u ''</p>'' @ [NL, NL]"

definition report_lists :: "ustring list \<Rightarrow> ustring list \<Rightarrow> ustring list \<Rightarrow> ustring" where
  "report_lists enables limits actions =
     u ''<h3>What This Data Enables</h3>'' @ [NL]
     @ u ''<ul>'' @ li_items enables @ u ''</ul>'' @ [NL, NL]
     @ u ''<h3>Limitations</h3>'' @ [NL]
     @ u ''<ul>'' @ li_items limits @ u ''</ul>'' @ [NL, NL]
     @ u ''<h3>Profit Improvement Actions</h3>'' @ [NL]
     @ u ''<ul>'' @ li_items actions @ u ''</ul>'' @ [NL, NL]"

definition report_tail :: "ustring list \<Rightarrow> ustring list \<Rightarrow> ustring" where
  "report_tail charts insights =
     [NL, NL] @ u ''<h2>Visual Analysis</h2>'' @ [NL]
     @ chart_items charts @ [NL, NL]
     @ u ''<h2>Key Insights</h2>'' @ [NL]
     @ u ''<ul>'' @ li_items insights @ u ''</ul>'' @ [NL]
     @ u ''</body>'' @ [NL] @ u ''</html>''"

text \<open>
  \<open>template.render(...)\<close>: the template text with every field put in its place (a
  number as its decimal digits, a text as it is), without the last line break of the
  template.
\<close>

definition render :: "ustring \<Rightarrow> ustring \<Rightarrow> ustring \<Rightarrow> ustring list \<Rightarrow> ustring list \<Rightarrow> ustring list
    \<Rightarrow> nat \<Rightarrow> nat \<Rightarrow> nat \<Rightarrow> nat \<Rightarrow> ustring list \<Rightarrow> ustring list \<Rightarrow> ustring" where
  "render date overview domain enables limits actions rws cls missing dup charts insights =
     report_head date overview domain @ report_lists enables limits actions
     @ data_quality rws cls missing dup @ report_tail charts insights"

fun startswith :: "ustring \<Rightarrow> ustring \<Rightarrow> bool" where
  "startswith s [] = True"
| "startswith [] (p # ps) = False"
| "startswith (c # cs) (p # ps) = (c = p \<and> startswith cs ps)"

fun contains :: "ustring \<Rightarrow> ustring \<Rightarrow> bool" where
  "contains [] needle = (needle = [])"
| "contains (c # cs) needle = (startswith (c # cs) needle \<or> contains cs needle)"

section \<open>The document exporter\<close>

text \<open>
  The export block on the files of the machine (a path to its bytes):
  \<open>NamedTemporaryFile(delete=False)\<close> leaves an empty file at a path of its choice,
  \<open>pdfkit.from_string\<close> either raises or writes the document there, the download
  button reads the bytes, and \<open>os.remove\<close> is the last statement. An exception ends
  the block where it is raised.
\<close>

type_synonym files = "ustring \<rightharpoonup> nat list"

definition export :: "(ustring \<Rightarrow> pyerr + nat list) \<Rightarrow> ustring \<Rightarrow> ustring \<Rightarrow> files
    \<Rightarrow> (pyerr + nat list) \<times> files" where
  "export engine pdf_path html fs =
     (let fs1 = fs(pdf_path \<mapsto> []) in
      case engine html of
        Inl e \<Rightarrow> (Inl e, fs1)
      | Inr bytes \<Rightarrow>
          (let fs2 = fs1(pdf_path \<mapsto> bytes) in
           case fs2 pdf_path of
             None \<Rightarrow> (Inl OSError, fs2)
           | Some offered \<Rightarrow> (Inr offered, fs2(pdf_path := None))))"

section \<open>Evaluation rules\<close>

lemmas chr_defs = NL_def SP_def COLON_def BULLET_def

lemmas key_defs = K_OVERVIEW_def K_DOMAIN_def K_ENABLES_def K_LIMITATIONS_def K_ACTIONS_def

lemmas line_defs = strip_def strip_with_def isspace_def endswith_def startswith_any_def
  markers_def is_header_def

section \<open>The parser on a bullet line in a free-text section\<close>

lemma body_free_text_bullet:
  assumes "secs cur = Some (Str s)" "cur \<noteq> []" "startswith_any (strip l) markers"
    "\<not> is_header secs (strip l)"
  shows "body (Some cur, secs) l = Inl AttributeError"
  using assms by (simp add: body_def)

text \<open>
  Claim C1. The parser is said never to raise, and to discard a bullet line that
  arrives while OVERVIEW or DOMAIN is the current section. The loop calls
  \<open>.append\<close> on the section's text, so the text made of the header \<open>OVERVIEW:\<close> and
  the line \<open>- Sales data\<close> ends the parse with \<open>AttributeError\<close>.
\<close>

theorem parse_bullet_in_free_text_raises:
  "parse (u ''OVERVIEW:'' @ [NL] @ u ''- Sales data'') = Inl AttributeError"
  by (simp add: parse_def body_def u_def chr_defs key_defs sections0_def line_defs)

section \<open>The chart builder without a numeric column\<close>

lemma build_charts_raises:
  assumes "\<forall>c \<in> set cols. snd c \<noteq> Numeric" "u ''total_price'' \<notin> set (map fst cols)"
  shows "build_charts cols = Inl IndexError"
proof -
  have "filter (\<lambda>c. snd c = Numeric) cols = []"
    using assms(1) by (simp add: filter_empty_conv)
  then show ?thesis
    using assms(2) by (simp add: build_charts_def revenue_col_def last_column_def select_numeric_def)
qed

lemma build_charts_revenue_is_category:
  "build_charts [(u ''pizza_size'', Object), (u ''pizza_category'', Numeric)] = Inl ValueError"
  by (simp add: build_charts_def category_chart_def revenue_col_def last_column_def
      select_numeric_def u_def)

lemma build_charts_both:
  "build_charts [(u ''pizza_category'', Object), (u ''pizza_size'', Object), (u ''total_price'', Numeric)]
     = Inr [Bar (u ''pizza_category'') (u ''total_price''), Pie (u ''pizza_size'') (u ''total_price'')]"
  by (simp add: build_charts_def category_chart_def size_chart_def revenue_col_def u_def)

text \<open>
  Claim C2. A table with no numeric column and no \<open>total_price\<close> column is said to
  give no revenue column and no chart, without a crash. On the table with the two
  text columns \<open>name\<close> and \<open>city\<close> the resolution of the revenue column indexes an
  empty column index and raises \<open>IndexError\<close>; no chart list is produced.
\<close>

theorem build_charts_no_numeric_raises:
  "build_charts [(u ''name'', Object), (u ''city'', Object)] = Inl IndexError"
  by (simp add: build_charts_def revenue_col_def last_column_def select_numeric_def u_def)

section \<open>The exporter and its temporary file\<close>

lemma export_failure:
  assumes "engine html = Inl e"
  shows "fst (export engine p html fs) = Inl e \<and> snd (export engine p html fs) p = Some []"
  using assms by (simp add: export_def)

lemma export_success:
  assumes "engine html = Inr bytes"
  shows "fst (export engine p html fs) = Inr bytes \<and> snd (export engine p html fs) p = None"
  using assms by (simp add: export_def)

text \<open>
  Claim C3. A failure of the rendering engine is said to reach the caller and the
  temporary file to be removed on the success path and on the failure path. The
  error does reach the caller, but \<open>os.remove\<close> is the last statement of the block and
  is not run after the exception: with an engine that fails, the temporary file
  \<open>/tmp/tmpab12.pdf\<close> is still there, empty, when the block ends.
\<close>

theorem export_failure_leaves_file:
  "export (\<lambda>html. Inl OSError) (u ''/tmp/tmpab12.pdf'') (u ''<html>'') Map.empty
     = (Inl OSError, [u ''/tmp/tmpab12.pdf'' \<mapsto> []])"
  by (simp add: export_def)

section \<open>The model client: three attempts\<close>

lemma attempts_all_failed:
  "(\<forall>k<n. net (i + k) = Failed) \<Longrightarrow> attempts n net p i tr = ([], tr @ replicate n (Post p))"
proof (induction n arbitrary: i tr)
  case 0
  then show ?case by simp
next
  case (Suc n)
  from Suc.prems have h0: "net i = Failed"
    by (metis add.right_neutral zero_less_Suc)
  from Suc.prems have "\<forall>k<n. net (Suc i + k) = Failed"
    by (metis Suc_less_eq add_Suc_shift)
  from Suc.IH [OF this] h0 show ?case
    by (simp add: replicate_app_Cons_same)
qed

lemma attempts_first_answer:
  "j < n \<Longrightarrow> (\<forall>k<j. net (i + k) = Failed) \<Longrightarrow> net (i + j) = Answered r \<Longrightarrow>
     attempts n net p i tr
       = ((case r of None \<Rightarrow> [] | Some t \<Rightarrow> t), tr @ replicate (Suc j) (Post p))"
proof (induction n arbitrary: i j tr)
  case 0
  then show ?case by simp
next
  case (Suc n)
  show ?case
  proof (cases j)
    case 0
    with Suc.prems show ?thesis by simp
  next
    case (Suc j')
    from Suc.prems Suc have h0: "net i = Failed"
      by (metis add.right_neutral zero_less_Suc)
    have a: "j' < n" using Suc.prems(1) Suc by simp
    have b: "\<forall>k<j'. net (Suc i + k) = Failed"
      using Suc.prems(2) Suc by (metis Suc_less_eq add_Suc_shift)
    have c: "net (Suc i + j') = Answered r"
      using Suc.prems(3) Suc by simp
    from Suc.IH [OF a b c] h0 Suc show ?thesis
      by (simp add: replicate_app_Cons_same)
  qed
qed

text \<open>
  Claim C8. Whatever the network does, \<open>llama\<close> posts the prompt at most three
  times and does nothing else between the posts (the trace holds posts of the prompt
  only, no pause). When the three calls fail it returns the empty text. When call
  \<open>j\<close> is the first that does not fail, it returns the \<open>response\<close> field of that
  answer, the empty text when the answer has no such field, after \<open>j + 1\<close> posts.
\<close>

theorem llama_three_attempts:
  "length (snd (llama net p)) \<le> 3
   \<and> set (snd (llama net p)) \<subseteq> {Post p}
   \<and> ((\<forall>i<3. net i = Failed) \<longrightarrow> llama net p = ([], replicate 3 (Post p)))
   \<and> (\<forall>j r. j < 3 \<and> (\<forall>i<j. net i = Failed) \<and> net j = Answered r \<longrightarrow>
         llama net p = ((case r of None \<Rightarrow> [] | Some t \<Rightarrow> t), replicate (Suc j) (Post p)))"
proof -
  have all: "(\<forall>i<3. net i = Failed) \<Longrightarrow> llama net p = ([], replicate 3 (Post p))"
    using attempts_all_failed [of 3 net 0 p "[]"] by (simp add: llama_def)
  have one: "j < 3 \<Longrightarrow> (\<forall>i<j. net i = Failed) \<Longrightarrow> net j = Answered r \<Longrightarrow>
      llama net p = ((case r of None \<Rightarrow> [] | Some t \<Rightarrow> t), replicate (Suc j) (Post p))" for j r
    using attempts_first_answer [of j 3 net 0 r p "[]"] by (simp add: llama_def)
  have ex: "(\<forall>i<3. net i = Failed) \<or> (\<exists>j r. j < 3 \<and> (\<forall>i<j. net i = Failed) \<and> net j = Answered r)"
  proof (cases "\<forall>i<3. net i = Failed")
    case True
    then show ?thesis by simp
  next
    case False
    define j where "j = (LEAST i. net i \<noteq> Failed)"
    from False obtain i where i: "i < 3" "net i \<noteq> Failed" by blast
    have nj: "net j \<noteq> Failed" unfolding j_def using i(2) by (rule LeastI)
    have jle: "j \<le> i" unfolding j_def using i(2) by (rule Least_le)
    have before: "\<forall>k<j. net k = Failed"
      unfolding j_def using not_less_Least by blast
    from nj obtain r where "net j = Answered r" by (cases "net j") auto
    moreover have "j < 3" using jle i(1) by simp
    ultimately show ?thesis using before by blast
  qed
  have tr: "length (snd (llama net p)) \<le> 3 \<and> set (snd (llama net p)) \<subseteq> {Post p}"
    using ex
  proof
    assume "\<forall>i<3. net i = Failed"
    from all [OF this] show ?thesis by simp
  next
    assume "\<exists>j r. j < 3 \<and> (\<forall>i<j. net i = Failed) \<and> net j = Answered r"
    then obtain j r where h: "j < 3" "\<forall>i<j. net i = Failed" "net j = Answered r" by blast
    from one [OF h] h(1) show ?thesis by (auto simp: set_replicate_conv_if)
  qed
  from tr all one show ?thesis by blast
qed

theorem llama_three_attempts_witness:
  "llama (\<lambda>i. if i < 2 then Failed else Answered (Some (u ''ok''))) (u ''hi'')
     = (u ''ok'', replicate 3 (Post (u ''hi'')))
   \<and> llama (\<lambda>i. Failed) (u ''hi'') = ([], replicate 3 (Post (u ''hi'')))
   \<and> llama (\<lambda>i. Answered None) (u ''hi'') = ([], [Post (u ''hi'')])"
proof -
  have a: "llama (\<lambda>i. if i < 2 then Failed else Answered (Some (u ''ok''))) (u ''hi'')
     = (u ''ok'', replicate 3 (Post (u ''hi'')))"
  proof -
    let ?net = "\<lambda>i::nat. if i < 2 then Failed else Answered (Some (u ''ok''))"
    have "\<forall>j r. j < 3 \<and> (\<forall>i<j. ?net i = Failed) \<and> ?net j = Answered r \<longrightarrow>
         llama ?net (u ''hi'') = ((case r of None \<Rightarrow> [] | Some t \<Rightarrow> t), replicate (Suc j) (Post (u ''hi'')))"
      using llama_three_attempts [of ?net "u ''hi''"] by blast
    from this [rule_format, of 2 "Some (u ''ok'')"] show ?thesis
      by (simp add: eval_nat_numeral)
  qed
  have b: "llama (\<lambda>i. Failed) (u ''hi'') = ([], replicate 3 (Post (u ''hi'')))"
    by (simp add: llama_def numeral_3_eq_3)
  have c: "llama (\<lambda>i. Answered None) (u ''hi'') = ([], [Post (u ''hi'')])"
    by (simp add: llama_def numeral_3_eq_3)
  from a b c show ?thesis by simp
qed

section \<open>Lines and the loop\<close>

lemma split_nl_nonempty: "split_nl s \<noteq> []"
  by (induction s) (auto split: list.splits)

lemma split_nl_Cons:
  "split_nl (c # cs) = (if c = NL then [] # split_nl cs
     else (c # hd (split_nl cs)) # tl (split_nl cs))"
  using split_nl_nonempty [of cs] by (cases "split_nl cs") auto

lemma split_nl_append: "split_nl (a @ NL # b) = split_nl a @ split_nl b"
proof (induction a)
  case Nil
  then show ?case by (simp add: split_nl_Cons del: split_nl.simps(2))
next
  case (Cons c a)
  obtain l ls where l: "split_nl a = l # ls"
    using split_nl_nonempty [of a] by (cases "split_nl a") auto
  with Cons show ?case by (simp add: split_nl_Cons del: split_nl.simps(2))
qed

lemma split_nl_one_line: "NL \<notin> set s \<Longrightarrow> split_nl s = [s]"
  by (induction s) (auto simp: split_nl_Cons simp del: split_nl.simps(2))

lemma loop_append:
  "loop st (a @ b) = (case loop st a of Inl e \<Rightarrow> Inl e | Inr st' \<Rightarrow> loop st' b)"
  by (induction a arbitrary: st) (auto split: sum.splits)

lemma body_no_section:
  "\<not> is_header secs (strip l) \<Longrightarrow> body (None, secs) l = Inr (None, secs)"
  by (simp add: body_def)

lemma loop_no_section:
  "\<forall>l \<in> set ls. \<not> is_header secs (strip l) \<Longrightarrow> loop (None, secs) ls = Inr (None, secs)"
  by (induction ls) (auto simp: body_no_section)

lemma sections0_keys:
  "sections0 k \<noteq> None \<Longrightarrow>
     k = K_OVERVIEW \<or> k = K_DOMAIN \<or> k = K_ENABLES \<or> k = K_LIMITATIONS \<or> k = K_ACTIONS"
  by (auto simp: sections0_def split: if_splits)

lemma key_heads:
  "hd (K_OVERVIEW @ [COLON]) \<notin> set markers" "hd (K_DOMAIN @ [COLON]) \<notin> set markers"
  "hd (K_ENABLES @ [COLON]) \<notin> set markers" "hd (K_LIMITATIONS @ [COLON]) \<notin> set markers"
  "hd (K_ACTIONS @ [COLON]) \<notin> set markers"
  by (simp_all add: key_defs u_def markers_def chr_defs)

lemma header_not_bullet:
  assumes "is_header sections0 line"
  shows "\<not> startswith_any line markers"
proof -
  from assms have ne: "line \<noteq> []" and lst: "last line = COLON"
    and key: "sections0 (butlast line) \<noteq> None"
    by (simp_all add: is_header_def endswith_def)
  from ne lst have "line = butlast line @ [COLON]"
    by (metis append_butlast_last_id)
  with sections0_keys [OF key] key_heads show ?thesis
    by (metis startswith_any_def)
qed

section \<open>Lines before the first header\<close>

text \<open>
  Claim C7. Lines met before any section header are dropped: when no line of \<open>pre\<close>
  is a header, parsing \<open>pre\<close> alone gives the initial sections (the empty text for
  OVERVIEW and DOMAIN, the empty list for the three lists), and parsing \<open>pre\<close>
  followed by further lines gives what those further lines give alone. So does the
  empty input, and so does an input that is one bullet line.
\<close>

theorem parse_before_header:
  "((\<forall>l \<in> set (split_nl pre). \<not> is_header sections0 (strip l)) \<longrightarrow>
      parse pre = Inr sections0 \<and> parse (pre @ NL # rest) = parse rest)
   \<and> parse [] = Inr sections0
   \<and> (NL \<notin> set b \<and> startswith_any (strip b) markers \<longrightarrow> parse b = Inr sections0)"
proof -
  have drop: "parse pre = Inr sections0 \<and> parse (pre @ NL # rest) = parse rest"
    if h: "\<forall>l \<in> set (split_nl pre). \<not> is_header sections0 (strip l)" for pre rest
  proof -
    have l: "loop (None, sections0) (split_nl pre) = Inr (None, sections0)"
      using h by (rule loop_no_section)
    then show ?thesis
      by (simp add: parse_def split_nl_append loop_append)
  qed
  have empty: "parse [] = Inr sections0"
    using drop [of "[]"] by (simp add: is_header_def endswith_def strip_def strip_with_def)
  have bullet: "parse b = Inr sections0"
    if nl: "NL \<notin> set b" and m: "startswith_any (strip b) markers"
  proof -
    have "\<not> is_header sections0 (strip b)"
      using header_not_bullet m by blast
    then show ?thesis
      using drop [of b] split_nl_one_line [OF nl] by simp
  qed
  from drop empty bullet show ?thesis by blast
qed

theorem parse_before_header_witness:
  "parse (u ''Dear user,'') = Inr sections0
   \<and> parse (u ''Dear user,'' @ NL # u ''DOMAIN:'' @ NL # u ''Retail'') = parse (u ''DOMAIN:'' @ NL # u ''Retail'')
   \<and> parse (u ''- stray bullet'') = Inr sections0"
proof -
  have h1: "\<forall>l \<in> set (split_nl (u ''Dear user,'')). \<not> is_header sections0 (strip l)"
    by (simp add: u_def chr_defs line_defs)
  have h2: "NL \<notin> set (u ''- stray bullet'') \<and> startswith_any (strip (u ''- stray bullet'')) markers"
    by (simp add: u_def chr_defs line_defs)
  from h1 h2 parse_before_header [of "u ''Dear user,''" "u ''DOMAIN:'' @ NL # u ''Retail''" "u ''- stray bullet''"]
  show ?thesis by blast
qed

section \<open>Stripping\<close>

lemma strip_with_decomp:
  "dropWhile p s = strip_with p s @ rev (takeWhile p (rev (dropWhile p s)))"
proof -
  have "rev (dropWhile p s) = takeWhile p (rev (dropWhile p s)) @ dropWhile p (rev (dropWhile p s))"
    by simp
  then have "rev (rev (dropWhile p s))
      = rev (dropWhile p (rev (dropWhile p s))) @ rev (takeWhile p (rev (dropWhile p s)))"
    by (metis rev_append)
  then show ?thesis by (simp add: strip_with_def)
qed

lemma strip_with_last: "strip_with p s \<noteq> [] \<Longrightarrow> \<not> p (last (strip_with p s))"
  by (simp add: strip_with_def last_rev hd_dropWhile)

lemma strip_with_hd:
  assumes "strip_with p s \<noteq> []"
  shows "\<not> p (hd (strip_with p s))"
proof -
  have ne: "dropWhile p s \<noteq> []"
  proof
    assume "dropWhile p s = []"
    then have "strip_with p s = []"
      by (simp only: strip_with_def rev.simps dropWhile.simps)
    with assms show False by simp
  qed
  then have "\<not> p (hd (dropWhile p s))" by (rule hd_dropWhile)
  moreover have "hd (dropWhile p s) = hd (strip_with p s)"
    using assms strip_with_decomp [of p s] by (metis hd_append2)
  ultimately show ?thesis by simp
qed

lemma strip_with_id:
  assumes "s = [] \<or> (\<not> p (hd s) \<and> \<not> p (last s))"
  shows "strip_with p s = s"
proof (cases "s = []")
  case True
  then show ?thesis by (simp add: strip_with_def)
next
  case False
  with assms have h: "\<not> p (hd s)" and l: "\<not> p (last s)" by auto
  from False h have a: "dropWhile p s = s" by (cases s) auto
  from False l have "dropWhile p (rev s) = rev s" by (cases "rev s") (auto simp: last_rev)
  with a show ?thesis by (simp add: strip_with_def)
qed

lemma strip_with_idem: "strip_with p (strip_with p s) = strip_with p s"
  using strip_with_hd [of p s] strip_with_last [of p s] by (intro strip_with_id) blast

section \<open>What the loop keeps\<close>

lemma body_keys:
  "body (c, secs) l = Inr (c', secs') \<Longrightarrow> (secs' x = None) = (secs x = None)"
  by (auto simp: body_def Let_def split: if_splits option.splits pyval.splits)

lemma loop_keys:
  "loop st ls = Inr st' \<Longrightarrow> (snd st' x = None) = (snd st x = None)"
proof (induction ls arbitrary: st)
  case Nil
  then show ?case by simp
next
  case (Cons l ls)
  then obtain c secs where st: "st = (c, secs)" by (cases st) auto
  from Cons.prems obtain st1 where b: "body st l = Inr st1" and r: "loop st1 ls = Inr st'"
    by (auto split: sum.splits)
  obtain c1 secs1 where st1: "st1 = (c1, secs1)" by (cases st1) auto
  from body_keys [of c secs l c1 secs1 x] b st st1 Cons.IH [OF r] show ?case by simp
qed

lemma loop_is_header:
  "loop (None, sections0) ls = Inr (c, secs) \<Longrightarrow> is_header secs line = is_header sections0 line"
  using loop_keys [of "(None, sections0)" ls "(c, secs)" "butlast line"]
  by (simp add: is_header_def)

lemma body_grows:
  "body (c, secs) l = Inr (c', secs') \<Longrightarrow> secs k = Some (Str v) \<Longrightarrow>
     \<exists>w. secs' k = Some (Str (v @ w))"
  by (auto simp: body_def Let_def split: if_splits option.splits pyval.splits)

lemma loop_grows:
  "loop st ls = Inr st' \<Longrightarrow> snd st k = Some (Str v) \<Longrightarrow> \<exists>w. snd st' k = Some (Str (v @ w))"
proof (induction ls arbitrary: st v)
  case Nil
  then show ?case by simp
next
  case (Cons l ls)
  obtain c secs where st: "st = (c, secs)" by (cases st) auto
  from Cons.prems obtain st1 where b: "body st l = Inr st1" and r: "loop st1 ls = Inr st'"
    by (auto split: sum.splits)
  obtain c1 secs1 where st1: "st1 = (c1, secs1)" by (cases st1) auto
  from body_grows [of c secs l c1 secs1 k v] b st st1 Cons.prems(2)
  obtain w where w: "snd st1 k = Some (Str (v @ w))" by auto
  from Cons.IH [OF r w] show ?case by (metis append.assoc)
qed

lemma body_lead:
  "body (c, secs) l = Inr (c', secs') \<Longrightarrow> secs k = Some (Str v) \<Longrightarrow> v = [] \<or> hd v = SP \<Longrightarrow>
     \<exists>v'. secs' k = Some (Str v') \<and> (v' = [] \<or> hd v' = SP)"
  by (cases "v = []") (auto simp: body_def Let_def split: if_splits option.splits pyval.splits)

lemma loop_lead:
  "loop st ls = Inr st' \<Longrightarrow> snd st k = Some (Str v) \<Longrightarrow> v = [] \<or> hd v = SP \<Longrightarrow>
     \<exists>v'. snd st' k = Some (Str v') \<and> (v' = [] \<or> hd v' = SP)"
proof (induction ls arbitrary: st v)
  case Nil
  then show ?case by simp
next
  case (Cons l ls)
  obtain c secs where st: "st = (c, secs)" by (cases st) auto
  from Cons.prems obtain st1 where b: "body st l = Inr st1" and r: "loop st1 ls = Inr st'"
    by (auto split: sum.splits)
  obtain c1 secs1 where st1: "st1 = (c1, secs1)" by (cases st1) auto
  from body_lead [of c secs l c1 secs1 k v] b st st1 Cons.prems(2,3)
  obtain v1 where v1: "snd st1 k = Some (Str v1)" "v1 = [] \<or> hd v1 = SP" by auto
  from Cons.IH [OF r v1] show ?case .
qed

lemma body_free_text_line:
  assumes "secs k = Some (Str s)" "k \<noteq> []" "\<not> is_header secs (strip l)"
    "\<not> startswith_any (strip l) markers"
  shows "body (Some k, secs) l = Inr (Some k, secs(k \<mapsto> Str (s @ SP # strip l)))"
  using assms by (simp add: body_def)

lemma free_text_keys: "K_OVERVIEW \<noteq> []" "K_DOMAIN \<noteq> []"
  "sections0 K_OVERVIEW = Some (Str [])" "sections0 K_DOMAIN = Some (Str [])"
  by (simp_all add: key_defs u_def sections0_def)

section \<open>The leading space of a free-text section\<close>

text \<open>
  Claim C10 as stated fails: a free-text section that receives a non-empty content
  line need not begin with a single space. In the text made of the header
  \<open>OVERVIEW:\<close>, a line that holds one space, and the line \<open>A\<close>, the section
  receives the empty line first and then \<open>A\<close>, each behind its separating space, so
  its text is two spaces followed by \<open>A\<close>.
\<close>

theorem free_text_two_leading_spaces:
  "parse (u ''OVERVIEW:'' @ NL # SP # NL # u ''A'')
     = Inr (sections0(K_OVERVIEW \<mapsto> Str (SP # SP # u ''A'')))
   \<and> clean (u ''OVERVIEW:'' @ NL # SP # NL # u ''A'') = u ''OVERVIEW:'' @ NL # SP # NL # u ''A''
   \<and> strip (u ''A'') \<noteq> [] \<and> \<not> startswith_any (strip (u ''A'')) markers
   \<and> \<not> is_header sections0 (strip (u ''A''))"
proof -
  have a: "parse (u ''OVERVIEW:'' @ NL # SP # NL # u ''A'')
     = Inr (sections0(K_OVERVIEW \<mapsto> Str (SP # SP # u ''A'')))"
    by (simp add: parse_def body_def u_def chr_defs key_defs sections0_def line_defs)
  have b: "clean (u ''OVERVIEW:'' @ NL # SP # NL # u ''A'') = u ''OVERVIEW:'' @ NL # SP # NL # u ''A''"
    by (simp add: clean_def u_def chr_defs strip_def strip_with_def isspace_def)
  have c: "strip (u ''A'') \<noteq> [] \<and> \<not> startswith_any (strip (u ''A'')) markers
      \<and> \<not> is_header sections0 (strip (u ''A''))"
    by (simp add: u_def chr_defs line_defs)
  from a b c show ?thesis by simp
qed

text \<open>
  Claim C10, as the code has it. Let the lines of the input be \<open>pre\<close>, then a line \<open>l\<close>, then \<open>post\<close>,
  where after \<open>pre\<close> the current section is OVERVIEW or DOMAIN and \<open>l\<close>, stripped, is
  not empty, not a header and not a bullet line. When the parse returns sections,
  the text of that section is not empty and its first character is the space, the
  separator put before every line that is added, the first one included. When \<open>l\<close> is
  the first line the section receives, the text begins with that one space followed
  by the stripped line, whose first character is not white space; a line of white
  space received before \<open>l\<close> has put a space of its own in front.
\<close>

theorem free_text_leading_space:
  assumes "split_nl raw = pre @ l # post"
    and "loop (None, sections0) pre = Inr (Some k, secs)"
    and "k = K_OVERVIEW \<or> k = K_DOMAIN"
    and "strip l \<noteq> []"
    and "\<not> is_header sections0 (strip l)"
    and "\<not> startswith_any (strip l) markers"
    and "parse raw = Inr result"
  shows "\<exists>v. result k = Some (Str v) \<and> v \<noteq> [] \<and> hd v = SP
           \<and> (secs k = Some (Str []) \<longrightarrow>
                 take (Suc (length (strip l))) v = SP # strip l \<and> \<not> isspace (hd (strip l)))"
proof -
  have k0: "sections0 k = Some (Str [])" and kne: "k \<noteq> []"
    using assms(3) free_text_keys by auto
  from loop_lead [OF assms(2), of k "[]"] k0
  obtain s where s: "secs k = Some (Str s)" "s = [] \<or> hd s = SP" by auto
  have nh: "\<not> is_header secs (strip l)"
    using loop_is_header [OF assms(2)] assms(5) by simp
  have b: "body (Some k, secs) l = Inr (Some k, secs(k \<mapsto> Str (s @ SP # strip l)))"
    using body_free_text_line [OF s(1) kne nh assms(6)] .
  from assms(7) obtain st where st: "loop (None, sections0) (split_nl raw) = Inr st"
    and res: "result = snd st"
    by (auto simp: parse_def split: sum.splits)
  have "loop (Some k, secs(k \<mapsto> Str (s @ SP # strip l))) post = Inr st"
    using st assms(1,2) b by (simp add: loop_append)
  from loop_grows [OF this, of k "s @ SP # strip l"]
  obtain w where w: "result k = Some (Str ((s @ SP # strip l) @ w))"
    using res by auto
  have hd: "hd ((s @ SP # strip l) @ w) = SP"
    using s(2) by (cases s) auto
  have first: "take (Suc (length (strip l))) ((s @ SP # strip l) @ w) = SP # strip l"
    if "secs k = Some (Str [])"
    using that s(1) by simp
  have "\<not> isspace (hd (strip l))"
    using strip_with_hd [of isspace l] assms(4) by (simp add: strip_def)
  with w hd first show ?thesis by auto
qed

theorem free_text_leading_space_witness:
  "parse (u ''OVERVIEW:'' @ NL # u ''Pizza sales'')
     = Inr (sections0(K_OVERVIEW \<mapsto> Str (SP # u ''Pizza sales'')))
   \<and> (\<exists>v. (sections0(K_OVERVIEW \<mapsto> Str (SP # u ''Pizza sales''))) K_OVERVIEW = Some (Str v)
          \<and> v \<noteq> [] \<and> hd v = SP
          \<and> (sections0 K_OVERVIEW = Some (Str []) \<longrightarrow>
                take (Suc (length (strip (u ''Pizza sales'')))) v = SP # strip (u ''Pizza sales'')
                \<and> \<not> isspace (hd (strip (u ''Pizza sales'')))))"
proof -
  let ?raw = "u ''OVERVIEW:'' @ NL # u ''Pizza sales''"
  let ?res = "sections0(K_OVERVIEW \<mapsto> Str (SP # u ''Pizza sales''))"
  have h1: "split_nl ?raw = [u ''OVERVIEW:''] @ u ''Pizza sales'' # []"
    by (simp add: u_def chr_defs)
  have h2: "loop (None, sections0) [u ''OVERVIEW:''] = Inr (Some K_OVERVIEW, sections0)"
    by (simp add: body_def u_def chr_defs key_defs sections0_def line_defs)
  have h3: "K_OVERVIEW = K_OVERVIEW \<or> K_OVERVIEW = K_DOMAIN" by simp
  have h4: "strip (u ''Pizza sales'') \<noteq> []"
    by (simp add: u_def chr_defs line_defs)
  have h5: "\<not> is_header sections0 (strip (u ''Pizza sales''))"
    by (simp add: u_def chr_defs line_defs)
  have h6: "\<not> startswith_any (strip (u ''Pizza sales'')) markers"
    by (simp add: u_def chr_defs line_defs)
  have h7: "parse ?raw = Inr ?res"
    by (simp add: parse_def body_def u_def chr_defs key_defs sections0_def line_defs)
  from h7 free_text_leading_space [OF h1 h2 h3 h4 h5 h6 h7] show ?thesis by blast
qed

section \<open>The normalizer is idempotent\<close>

lemma has_nl_run_Cons:
  "has_nl_run (a # s) = ((s \<noteq> [] \<and> a = NL \<and> hd s = NL) \<or> has_nl_run s)"
  by (cases s) auto

lemma has_nl_run_append_left: "has_nl_run a \<Longrightarrow> has_nl_run (a @ b)"
proof (induction a)
  case Nil
  then show ?case by simp
next
  case (Cons c a)
  then show ?case by (cases a) (auto simp: has_nl_run_Cons)
qed

lemma has_nl_run_append_right: "has_nl_run b \<Longrightarrow> has_nl_run (a @ b)"
  by (induction a) (auto simp: has_nl_run_Cons)

lemma has_nl_run_strip_with:
  assumes "\<not> has_nl_run s"
  shows "\<not> has_nl_run (strip_with p s)"
proof
  assume "has_nl_run (strip_with p s)"
  then have "has_nl_run (dropWhile p s)"
    using strip_with_decomp [of p s] has_nl_run_append_left by metis
  then have "has_nl_run (takeWhile p s @ dropWhile p s)"
    by (rule has_nl_run_append_right)
  with assms show False by simp
qed

lemma resub_Nil_iff: "(resub s = []) = (s = [])"
  by (cases s) auto

lemma resub_hd: "s \<noteq> [] \<Longrightarrow> hd (resub s) = hd s"
  by (cases s) auto

lemma resub_no_run: "\<not> has_nl_run (resub s)"
proof (induction s rule: resub.induct)
  case 1
  then show ?case by simp
next
  case (2 c cs)
  show ?case
  proof (cases "c = NL \<and> cs \<noteq> [] \<and> hd cs = NL")
    case True
    let ?d = "dropWhile (\<lambda>x. x = NL) cs"
    have ih: "\<not> has_nl_run (resub ?d)" using 2(1) True by simp
    have "resub ?d \<noteq> [] \<Longrightarrow> hd (resub ?d) \<noteq> NL"
      using resub_hd [of ?d] hd_dropWhile [of "\<lambda>x. x = NL" cs] by (simp add: resub_Nil_iff)
    with ih True show ?thesis by (auto simp: has_nl_run_Cons)
  next
    case False
    have ih: "\<not> has_nl_run (resub cs)" using 2(2) False by simp
    from False ih show ?thesis
      by (auto simp: has_nl_run_Cons resub_Nil_iff resub_hd)
  qed
qed

lemma resub_id: "\<not> has_nl_run s \<Longrightarrow> resub s = s"
  by (induction s) (auto simp: has_nl_run_Cons)

text \<open>
  Claim C5. \<open>clean\<close> is idempotent, and its result holds no two line breaks in a row
  and neither begins nor ends with a white space character.
\<close>

theorem clean_idempotent:
  "clean (clean x) = clean x
   \<and> \<not> has_nl_run (clean x)
   \<and> (clean x \<noteq> [] \<longrightarrow> \<not> isspace (hd (clean x)) \<and> \<not> isspace (last (clean x)))"
proof -
  have run: "\<not> has_nl_run (clean x)"
    unfolding clean_def strip_def using resub_no_run by (rule has_nl_run_strip_with)
  have "clean (clean x) = strip (clean x)"
    using resub_id [OF run] by (simp add: clean_def)
  then have idem: "clean (clean x) = clean x"
    by (simp add: clean_def strip_def strip_with_idem)
  have ends: "\<not> isspace (hd (clean x)) \<and> \<not> isspace (last (clean x))" if "clean x \<noteq> []"
    using that strip_with_hd [of isspace "resub x"] strip_with_last [of isspace "resub x"]
    by (simp add: clean_def strip_def)
  from run idem ends show ?thesis by blast
qed

theorem clean_idempotent_witness:
  "clean ([SP, SP] @ u ''Hello'' @ [NL, NL, NL] @ u ''World'' @ [SP, NL]) = u ''Hello'' @ NL # u ''World''
   \<and> clean (u ''Hello'' @ NL # u ''World'') = u ''Hello'' @ NL # u ''World''
   \<and> \<not> has_nl_run (u ''Hello'' @ NL # u ''World'')
   \<and> \<not> isspace (hd (u ''Hello'' @ NL # u ''World''))
   \<and> \<not> isspace (last (u ''Hello'' @ NL # u ''World''))"
proof -
  let ?x = "[SP, SP] @ u ''Hello'' @ [NL, NL, NL] @ u ''World'' @ [SP, NL]"
  have c: "clean ?x = u ''Hello'' @ NL # u ''World''"
    by (simp add: clean_def u_def chr_defs strip_def strip_with_def isspace_def)
  have ne: "u ''Hello'' @ NL # u ''World'' \<noteq> []" by simp
  from clean_idempotent [of ?x] c ne show ?thesis by simp
qed

section \<open>The counts of the summarizer\<close>

lemma duplicated_from_length: "length (duplicated_from seen rs) = length rs"
  by (induction rs arbitrary: seen) auto

lemma duplicated_from_nth:
  "i < length rs \<Longrightarrow>
     duplicated_from seen rs ! i = (rs ! i \<in> set seen \<union> set (take i rs))"
proof (induction rs arbitrary: seen i)
  case Nil
  then show ?case by simp
next
  case (Cons r rs)
  show ?case
  proof (cases i)
    case 0
    then show ?thesis by simp
  next
    case (Suc j)
    with Cons.prems have j: "j < length rs" by simp
    show ?thesis
    proof (cases "r \<in> set seen")
      case True
      with Cons.IH [OF j, of seen] Suc show ?thesis by auto
    next
      case False
      with Cons.IH [OF j, of "r # seen"] Suc show ?thesis by auto
    qed
  qed
qed

lemma count_duplicated:
  "length (filter (\<lambda>b. b) (duplicated rs))
     = card {i. i < length rs \<and> (\<exists>j<i. rs ! j = rs ! i)}"
proof -
  have "length (filter (\<lambda>b. b) (duplicated rs))
      = card {i. i < length (duplicated rs) \<and> duplicated rs ! i}"
    by (rule length_filter_conv_card)
  also have "{i. i < length (duplicated rs) \<and> duplicated rs ! i}
      = {i. i < length rs \<and> (\<exists>j<i. rs ! j = rs ! i)}"
  proof -
    have "duplicated rs ! i = (\<exists>j<i. rs ! j = rs ! i)" if i: "i < length rs" for i
    proof -
      have "duplicated rs ! i = (rs ! i \<in> set (take i rs))"
        using duplicated_from_nth [OF i, of "[]"] by (simp add: duplicated_def)
      also have "\<dots> = (\<exists>j<i. rs ! j = rs ! i)"
        using i by (auto simp: in_set_conv_nth)
      finally show ?thesis .
    qed
    then show ?thesis
      by (auto simp: duplicated_def duplicated_from_length)
  qed
  finally show ?thesis .
qed

text \<open>
  Claim C9. The summarizer is a function of the table alone and has a value on every
  table. On a table without rows it gives no rows, the number of columns, no missing
  cell and no duplicate, whatever the columns are. The duplicate count is the number
  of rows equal to a row before them, so a table of two equal rows has one duplicate.
\<close>

theorem summarize_counts:
  "summarize \<lparr>columns = cols, rows = []\<rparr>
     = \<lparr>n_rows = 0, n_cols = length cols, n_missing = 0, n_dup = 0\<rparr>
   \<and> n_dup (summarize d)
       = card {i. i < length (rows d) \<and> (\<exists>j<i. rows d ! j = rows d ! i)}
   \<and> n_dup (summarize \<lparr>columns = cols, rows = [r, r]\<rparr>) = 1
   \<and> n_rows (summarize d) = length (rows d) \<and> n_cols (summarize d) = length (columns d)"
proof -
  have "sum_list (map (\<lambda>j. 0) [0..<length cols]) = (0::nat)"
    by (induction cols) auto
  then have zero: "summarize \<lparr>columns = cols, rows = []\<rparr>
     = \<lparr>n_rows = 0, n_cols = length cols, n_missing = 0, n_dup = 0\<rparr>"
    by (simp add: summarize_def isnull_sum_def duplicated_def)
  have dup: "n_dup (summarize d)
       = card {i. i < length (rows d) \<and> (\<exists>j<i. rows d ! j = rows d ! i)}"
    by (simp add: summarize_def count_duplicated)
  have two: "n_dup (summarize \<lparr>columns = cols, rows = [r, r]\<rparr>) = 1"
    by (simp add: summarize_def duplicated_def)
  from zero dup two show ?thesis by (simp add: summarize_def)
qed

section \<open>The data-quality block of the report\<close>

lemma startswith_append: "startswith (n @ s) n"
  by (induction n) auto

lemma contains_here: "contains (n @ s) n"
  by (cases "n @ s") (auto simp: startswith_append, metis startswith_append)

lemma contains_append_right: "contains s n \<Longrightarrow> contains (a @ s) n"
  by (induction a) auto

lemma contains_middle: "contains (a @ n @ b) n"
  by (rule contains_append_right) (rule contains_here)

lemma data_quality_scenario:
  "data_quality 100 5 5 3
     = u ''<h2>Data Quality</h2>'' @ [NL]
       @ (u ''<p>Rows: 100 | Columns: 5</p>'' @ NL # u ''<p>Missing: 5 | Duplicates: 3</p>'')"
  by (simp add: data_quality_def show_nat.simps u_def)

theorem data_quality_not_one_line:
  "\<not> contains (data_quality 100 5 5 3)
       (u ''Rows: 100 | Columns: 5 | Missing: 5 | Duplicates: 3'')"
  by (simp add: data_quality_def show_nat.simps u_def chr_defs)

lemmas report_defs = render_def report_head_def report_lists_def report_tail_def data_quality_def
  li_items_def chart_items_def DQ_def ENDASH_def

text \<open>
  Claim C4 as stated fails: the line
  \<open>Rows: 100 | Columns: 5 | Missing: 5 | Duplicates: 3\<close> is not in the report: the template closes the paragraph after the column count and opens
  a new one for the missing cells. A report with 100 rows, 5 columns, 5 missing cells
  and 3 duplicates, with sections as the parser gives them:
\<close>

theorem report_not_one_line:
  "\<not> contains
       (render (u ''2026-11-04 10:00'') (u '' Pizza sales by order'') (u '' Food retail'')
          [u ''Pricing by size''] [u ''One year only''] [u ''Promote large sizes'']
          100 5 5 3 [] [u ''Large pizzas bring the most revenue''])
       (u ''Rows: 100 | Columns: 5 | Missing: 5 | Duplicates: 3'')"
  by (simp add: report_defs show_nat.simps u_def chr_defs)

text \<open>
  Claim C4, as the code has it. With 100 rows, 5 columns, 5 missing cells and 3
  duplicates, whatever the sections, the date, the charts and the insights are, the
  data-quality block of the report is the heading followed by two paragraphs,
  \<open><p>Rows: 100 | Columns: 5</p>\<close> and, on the next line,
  \<open><p>Missing: 5 | Duplicates: 3</p>\<close>, and the report holds these two lines verbatim.
\<close>

theorem report_data_quality_block:
  "data_quality 100 5 5 3
     = u ''<h2>Data Quality</h2>'' @ [NL]
       @ u ''<p>Rows: 100 | Columns: 5</p>'' @ [NL]
       @ u ''<p>Missing: 5 | Duplicates: 3</p>''
   \<and> contains (render date overview domain enables limits actions 100 5 5 3 charts insights)
       (u ''<p>Rows: 100 | Columns: 5</p>'' @ [NL] @ u ''<p>Missing: 5 | Duplicates: 3</p>'')
   \<and> contains (render date overview domain enables limits actions 100 5 5 3 charts insights)
       (u ''Rows: 100 | Columns: 5'')
   \<and> contains (render date overview domain enables limits actions 100 5 5 3 charts insights)
       (u ''Missing: 5 | Duplicates: 3'')"
proof -
  let ?doc = "render date overview domain enables limits actions 100 5 5 3 charts insights"
  let ?pre = "report_head date overview domain @ report_lists enables limits actions
      @ u ''<h2>Data Quality</h2>'' @ [NL]"
  let ?post = "report_tail charts insights"
  have block: "data_quality 100 5 5 3
     = u ''<h2>Data Quality</h2>'' @ [NL]
       @ u ''<p>Rows: 100 | Columns: 5</p>'' @ [NL]
       @ u ''<p>Missing: 5 | Duplicates: 3</p>''"
    by (simp add: data_quality_scenario)
  have doc: "?doc = ?pre
      @ (u ''<p>Rows: 100 | Columns: 5</p>'' @ [NL] @ u ''<p>Missing: 5 | Duplicates: 3</p>'')
      @ ?post"
    by (simp add: render_def block)
  have both: "contains ?doc
      (u ''<p>Rows: 100 | Columns: 5</p>'' @ [NL] @ u ''<p>Missing: 5 | Duplicates: 3</p>'')"
    unfolding doc by (rule contains_middle)
  have s1: "u ''<p>Rows: 100 | Columns: 5</p>'' = u ''<p>'' @ u ''Rows: 100 | Columns: 5'' @ u ''</p>''"
    by (simp add: u_def)
  have s2: "u ''<p>Missing: 5 | Duplicates: 3</p>''
      = u ''<p>'' @ u ''Missing: 5 | Duplicates: 3'' @ u ''</p>''"
    by (simp add: u_def)
  have "?doc = (?pre @ u ''<p>'') @ u ''Rows: 100 | Columns: 5''
      @ (u ''</p>'' @ [NL] @ u ''<p>Missing: 5 | Duplicates: 3</p>'' @ ?post)"
    unfolding doc s1 by simp
  then have first: "contains ?doc (u ''Rows: 100 | Columns: 5'')"
    using contains_middle by metis
  have "?doc = (?pre @ u ''<p>Rows: 100 | Columns: 5</p>'' @ [NL] @ u ''<p>'')
      @ u ''Missing: 5 | Duplicates: 3'' @ (u ''</p>'' @ ?post)"
    unfolding doc s2 by simp
  then have second: "contains ?doc (u ''Missing: 5 | Duplicates: 3'')"
    using contains_middle by metis
  from block both first second show ?thesis by blast
qed

section \<open>The entry of a bullet line\<close>

lemma dropWhile_sandwich:
  assumes "r \<noteq> []" "\<not> p (hd r)"
  shows "dropWhile p (a @ r @ b) = dropWhile p a @ r @ b"
proof (cases "\<forall>x \<in> set a. p x")
  case True
  then have "dropWhile p a = []" by simp
  moreover have "dropWhile p (r @ b) = r @ b"
    using assms by (cases r) auto
  ultimately show ?thesis using True by (simp add: dropWhile_append)
next
  case False
  then show ?thesis by (auto simp: dropWhile_append)
qed

lemma strip_with_sandwich:
  assumes "r \<noteq> []" "\<not> p (hd r)" "\<not> p (last r)"
  shows "strip_with p (a @ r @ b) = dropWhile p a @ r @ rev (dropWhile p (rev b))"
proof -
  have 1: "dropWhile p (a @ r @ b) = dropWhile p a @ r @ b"
    using assms(1,2) by (rule dropWhile_sandwich)
  have "rev r \<noteq> []" "\<not> p (hd (rev r))"
    using assms(1,3) by (simp_all add: hd_rev)
  then have 2: "dropWhile p (rev b @ rev r @ rev (dropWhile p a))
      = dropWhile p (rev b) @ rev r @ rev (dropWhile p a)"
    by (rule dropWhile_sandwich)
  show ?thesis
    by (simp add: strip_with_def 1 2)
qed

lemma strip_with_all:
  assumes "\<forall>x \<in> set s. p x"
  shows "strip_with p s = []"
proof -
  from assms have "dropWhile p s = []" by simp
  then show ?thesis by (simp only: strip_with_def rev.simps dropWhile.simps)
qed

lemma strip_with_Nil_all:
  assumes "strip_with p s = []"
  shows "\<forall>x \<in> set (dropWhile p s). p x"
proof -
  from assms have "dropWhile p (rev (dropWhile p s)) = []"
    by (simp add: strip_with_def)
  then show ?thesis by simp
qed

lemma strip_with_subset: "set (strip_with p s) \<subseteq> set s"
proof -
  have "set (dropWhile p (rev (dropWhile p s))) \<subseteq> set (rev (dropWhile p s))"
    by (meson set_dropWhileD subsetI)
  also have "\<dots> \<subseteq> set s"
    using set_dropWhileD by fastforce
  finally show ?thesis by (simp add: strip_with_def)
qed

lemma markers_in_strip_set: "set markers \<subseteq> set strip_set"
  by (auto simp: markers_def strip_set_def)

lemma strip_with_drop_first: "p m \<Longrightarrow> strip_with p (m # s) = strip_with p s"
  by (simp add: strip_with_def)

lemma entry_matches_spec:
  assumes "startswith_any line markers"
    and "strip (tl line) = []
       \<or> (hd (strip (tl line)) \<notin> set strip_set \<and> last (strip (tl line)) \<notin> set strip_set)"
  shows "entry_of line = spec_entry line"
proof -
  let ?q = "\<lambda>c. c \<in> set strip_set"
  from assms(1) obtain m rest where line: "line = m # rest" and m: "m \<in> set markers"
    by (cases line) (auto simp: startswith_any_def)
  have qm: "?q m" using m markers_in_strip_set by blast
  let ?r = "strip_with isspace rest"
  have e: "entry_of line = strip_with isspace (strip_with ?q rest)"
    using strip_with_drop_first [of ?q m rest, OF qm]
    by (simp add: entry_of_def strip_def strip_chars_def line)
  have sp: "spec_entry line = ?r"
    by (simp add: spec_entry_def strip_def line)
  show ?thesis
  proof (cases "?r = []")
    case True
    have "\<forall>x \<in> set (dropWhile isspace rest). isspace x"
      using True by (rule strip_with_Nil_all)
    moreover have "\<forall>x \<in> set (takeWhile isspace rest). isspace x"
      by (meson set_takeWhileD)
    moreover have "set rest = set (takeWhile isspace rest) \<union> set (dropWhile isspace rest)"
      by (metis set_append takeWhile_dropWhile_id)
    ultimately have allw: "\<forall>x \<in> set rest. isspace x"
      by blast
    have "\<forall>x \<in> set (strip_with ?q rest). isspace x"
      using allw strip_with_subset [of ?q rest] by blast
    then have "strip_with isspace (strip_with ?q rest) = []"
      by (rule strip_with_all)
    with e sp True show ?thesis by simp
  next
    case False
    let ?a = "takeWhile isspace rest"
    let ?b = "rev (takeWhile isspace (rev (dropWhile isspace rest)))"
    have nq: "\<not> ?q (hd ?r)" "\<not> ?q (last ?r)"
      using assms(2) False by (auto simp: strip_def line)
    have nw: "\<not> isspace (hd ?r)" "\<not> isspace (last ?r)"
      using False strip_with_hd strip_with_last by blast+
    have "rest = ?a @ dropWhile isspace rest" by simp
    then have rest: "rest = ?a @ ?r @ ?b"
      using strip_with_decomp [of isspace rest] by simp
    have "strip_with ?q (?a @ ?r @ ?b) = dropWhile ?q ?a @ ?r @ rev (dropWhile ?q (rev ?b))"
      using False nq by (rule strip_with_sandwich)
    then have sq: "strip_with ?q rest = dropWhile ?q ?a @ ?r @ rev (dropWhile ?q (rev ?b))"
      using rest by simp
    have wa: "\<forall>x \<in> set (dropWhile ?q ?a). isspace x"
      by (meson set_dropWhileD set_takeWhileD)
    have "\<forall>x \<in> set (dropWhile ?q (rev ?b)). isspace x"
      by (metis set_dropWhileD set_takeWhileD rev_rev_ident)
    then have wb: "\<forall>x \<in> set (rev (dropWhile ?q (rev ?b))). isspace x"
      by simp
    have "strip_with isspace (dropWhile ?q ?a @ ?r @ rev (dropWhile ?q (rev ?b)))
        = dropWhile isspace (dropWhile ?q ?a) @ ?r
          @ rev (dropWhile isspace (rev (rev (dropWhile ?q (rev ?b)))))"
      using False nw by (rule strip_with_sandwich)
    moreover have "dropWhile isspace (dropWhile ?q ?a) = []"
      using wa by simp
    moreover have "dropWhile isspace (rev (rev (dropWhile ?q (rev ?b)))) = []"
      using wb by simp
    ultimately have "strip_with isspace (strip_with ?q rest) = ?r"
      using sq by simp
    with e sp show ?thesis by simp
  qed
qed

section \<open>Blocks of lines under a header\<close>

lemma is_header_same_keys:
  "\<forall>x. (secs x = None) = (sections0 x = None) \<Longrightarrow> is_header secs line = is_header sections0 line"
  by (simp add: is_header_def)

lemma same_keys_update:
  "\<forall>x. (secs x = None) = (sections0 x = None) \<Longrightarrow> secs k = Some v \<Longrightarrow>
     \<forall>x. ((secs(k \<mapsto> v')) x = None) = (sections0 x = None)"
  by (metis fun_upd_apply option.distinct(1))

lemma body_bullet_line:
  assumes "secs k = Some (Lst xs)" "k \<noteq> []" "startswith_any (strip l) markers"
    "\<not> is_header secs (strip l)"
  shows "body (Some k, secs) l = Inr (Some k, secs(k \<mapsto> Lst (xs @ [entry_of (strip l)])))"
  using assms by (simp add: body_def)

lemma loop_bullets:
  "secs k = Some (Lst xs) \<Longrightarrow> k \<noteq> [] \<Longrightarrow> \<forall>x. (secs x = None) = (sections0 x = None) \<Longrightarrow>
   \<forall>l \<in> set bs. startswith_any (strip l) markers \<Longrightarrow>
     loop (Some k, secs) (bs @ rest)
       = loop (Some k, secs(k \<mapsto> Lst (xs @ map (\<lambda>l. entry_of (strip l)) bs))) rest"
proof (induction bs arbitrary: secs xs)
  case Nil
  then have "secs(k \<mapsto> Lst xs) = secs" by (simp add: fun_upd_idem)
  then show ?case by simp
next
  case (Cons b bs)
  have m: "startswith_any (strip b) markers" using Cons.prems(4) by simp
  have "\<not> is_header sections0 (strip b)" using header_not_bullet m by blast
  then have nh: "\<not> is_header secs (strip b)"
    using is_header_same_keys [OF Cons.prems(3)] by simp
  let ?secs = "secs(k \<mapsto> Lst (xs @ [entry_of (strip b)]))"
  have b: "body (Some k, secs) b = Inr (Some k, ?secs)"
    using body_bullet_line [OF Cons.prems(1,2) m nh] .
  have 1: "?secs k = Some (Lst (xs @ [entry_of (strip b)]))" by simp
  have 3: "\<forall>x. (?secs x = None) = (sections0 x = None)"
    using same_keys_update [OF Cons.prems(3) Cons.prems(1)] .
  have 4: "\<forall>l \<in> set bs. startswith_any (strip l) markers" using Cons.prems(4) by simp
  have "loop (Some k, secs) ((b # bs) @ rest) = loop (Some k, ?secs) (bs @ rest)"
    by (simp only: append_Cons loop.simps b sum.case)
  also have "\<dots> = loop (Some k, ?secs(k \<mapsto> Lst ((xs @ [entry_of (strip b)])
      @ map (\<lambda>l. entry_of (strip l)) bs))) rest"
    using 1 Cons.prems(2) 3 4 by (rule Cons.IH)
  also have "?secs(k \<mapsto> Lst ((xs @ [entry_of (strip b)]) @ map (\<lambda>l. entry_of (strip l)) bs))
      = secs(k \<mapsto> Lst (xs @ map (\<lambda>l. entry_of (strip l)) (b # bs)))"
    by simp
  finally show ?case .
qed

lemma loop_plain:
  "secs k = Some (Str s) \<Longrightarrow> k \<noteq> [] \<Longrightarrow> \<forall>x. (secs x = None) = (sections0 x = None) \<Longrightarrow>
   \<forall>l \<in> set ls. \<not> is_header sections0 (strip l) \<and> \<not> startswith_any (strip l) markers \<Longrightarrow>
     loop (Some k, secs) (ls @ rest)
       = loop (Some k, secs(k \<mapsto> Str (s @ concat (map (\<lambda>l. SP # strip l) ls)))) rest"
proof (induction ls arbitrary: secs s)
  case Nil
  then have "secs(k \<mapsto> Str s) = secs" by (simp add: fun_upd_idem)
  then show ?case by simp
next
  case (Cons b bs)
  have nh: "\<not> is_header secs (strip b)"
    using is_header_same_keys [OF Cons.prems(3)] Cons.prems(4) by simp
  have nb: "\<not> startswith_any (strip b) markers" using Cons.prems(4) by simp
  let ?secs = "secs(k \<mapsto> Str (s @ SP # strip b))"
  have b: "body (Some k, secs) b = Inr (Some k, ?secs)"
    using body_free_text_line [OF Cons.prems(1,2) nh nb] .
  have 1: "?secs k = Some (Str (s @ SP # strip b))" by simp
  have 3: "\<forall>x. (?secs x = None) = (sections0 x = None)"
    using same_keys_update [OF Cons.prems(3) Cons.prems(1)] .
  have 4: "\<forall>l \<in> set bs. \<not> is_header sections0 (strip l) \<and> \<not> startswith_any (strip l) markers"
    using Cons.prems(4) by simp
  have "loop (Some k, secs) ((b # bs) @ rest) = loop (Some k, ?secs) (bs @ rest)"
    by (simp only: append_Cons loop.simps b sum.case)
  also have "\<dots> = loop (Some k, ?secs(k \<mapsto> Str ((s @ SP # strip b)
      @ concat (map (\<lambda>l. SP # strip l) bs)))) rest"
    using 1 Cons.prems(2) 3 4 by (rule Cons.IH)
  also have "?secs(k \<mapsto> Str ((s @ SP # strip b) @ concat (map (\<lambda>l. SP # strip l) bs)))
      = secs(k \<mapsto> Str (s @ concat (map (\<lambda>l. SP # strip l) (b # bs))))"
    by simp
  finally show ?case .
qed

lemma body_header_line:
  assumes "secs k \<noteq> None" "strip (k @ [COLON]) = k @ [COLON]"
  shows "body (c, secs) (k @ [COLON]) = Inr (Some k, secs)"
  using assms by (simp add: body_def is_header_def endswith_def)

lemma header_lines:
  "strip (K_OVERVIEW @ [COLON]) = K_OVERVIEW @ [COLON]"
  "strip (K_DOMAIN @ [COLON]) = K_DOMAIN @ [COLON]"
  "strip (K_ENABLES @ [COLON]) = K_ENABLES @ [COLON]"
  "strip (K_LIMITATIONS @ [COLON]) = K_LIMITATIONS @ [COLON]"
  "strip (K_ACTIONS @ [COLON]) = K_ACTIONS @ [COLON]"
  by (simp_all add: key_defs u_def chr_defs strip_def strip_with_def isspace_def)

lemma keys_distinct:
  "K_OVERVIEW \<noteq> K_DOMAIN" "K_OVERVIEW \<noteq> K_ENABLES" "K_OVERVIEW \<noteq> K_LIMITATIONS"
  "K_OVERVIEW \<noteq> K_ACTIONS" "K_DOMAIN \<noteq> K_ENABLES" "K_DOMAIN \<noteq> K_LIMITATIONS"
  "K_DOMAIN \<noteq> K_ACTIONS" "K_ENABLES \<noteq> K_LIMITATIONS" "K_ENABLES \<noteq> K_ACTIONS"
  "K_LIMITATIONS \<noteq> K_ACTIONS"
  by (simp_all add: key_defs u_def)

lemma list_keys: "K_ENABLES \<noteq> []" "K_LIMITATIONS \<noteq> []" "K_ACTIONS \<noteq> []"
  "sections0 K_ENABLES = Some (Lst [])" "sections0 K_LIMITATIONS = Some (Lst [])"
  "sections0 K_ACTIONS = Some (Lst [])"
  by (simp_all add: key_defs u_def sections0_def)

lemma loop_plain0:
  assumes "secs k = Some (Str [])" "k \<noteq> []" "\<forall>x. (secs x = None) = (sections0 x = None)"
    "\<forall>l \<in> set ls. \<not> is_header sections0 (strip l) \<and> \<not> startswith_any (strip l) markers"
  shows "loop (Some k, secs) (ls @ rest)
       = loop (Some k, secs(k \<mapsto> Str (concat (map (\<lambda>l. SP # strip l) ls)))) rest"
  using loop_plain [of secs k "[]" ls rest, OF assms] by (simp only: append_Nil)

lemma loop_bullets0:
  assumes "secs k = Some (Lst [])" "k \<noteq> []" "\<forall>x. (secs x = None) = (sections0 x = None)"
    "\<forall>l \<in> set bs. startswith_any (strip l) markers"
  shows "loop (Some k, secs) (bs @ rest)
       = loop (Some k, secs(k \<mapsto> Lst (map (\<lambda>l. entry_of (strip l)) bs))) rest"
  using loop_bullets [of secs k "[]" bs rest, OF assms] by (simp only: append_Nil)

section \<open>Bullet lines in a list section\<close>

text \<open>
  Claim C6 as stated fails: the entry the parser stores is not always the line
  without its marker and the white space around it: \<open>line.strip("-\<bullet>* ")\<close>
  removes every marker character and space at both ends. Under the header \<open>WHAT THIS DATA ENABLES:\<close> the line
  \<open>* **Upsell** large sizes\<close> gives the entry \<open>Upsell** large sizes\<close>, whereas the line
  without its marker and surrounding white space is \<open>**Upsell** large sizes\<close>.
\<close>

theorem bullet_entry_not_remainder:
  "parse (u ''WHAT THIS DATA ENABLES:'' @ NL # u ''* **Upsell** large sizes'')
     = Inr (sections0(K_ENABLES \<mapsto> Lst [u ''Upsell** large sizes'']))
   \<and> spec_entry (u ''* **Upsell** large sizes'') = u ''**Upsell** large sizes''
   \<and> entry_of (u ''* **Upsell** large sizes'') \<noteq> spec_entry (u ''* **Upsell** large sizes'')"
proof -
  have a: "parse (u ''WHAT THIS DATA ENABLES:'' @ NL # u ''* **Upsell** large sizes'')
     = Inr (sections0(K_ENABLES \<mapsto> Lst [u ''Upsell** large sizes'']))"
    by (simp add: parse_def body_def entry_of_def strip_chars_def strip_set_def u_def chr_defs
        key_defs sections0_def line_defs)
  have b: "spec_entry (u ''* **Upsell** large sizes'') = u ''**Upsell** large sizes''"
    by (simp add: spec_entry_def u_def chr_defs line_defs)
  have c: "entry_of (u ''* **Upsell** large sizes'') = u ''Upsell** large sizes''"
    by (simp add: entry_of_def strip_chars_def strip_set_def u_def chr_defs line_defs)
  have d: "u ''Upsell** large sizes'' \<noteq> u ''**Upsell** large sizes''"
    by (simp add: u_def)
  from a b c d show ?thesis by simp
qed

section \<open>Blocks in any order\<close>

lemma body_header:
  "is_header secs (strip h) \<Longrightarrow> body (c, secs) h = Inr (Some (butlast (strip h)), secs)"
  by (simp add: body_def)

lemma header_key:
  assumes "is_header sections0 line"
  shows "sections0 (butlast line) \<noteq> None" "butlast line \<noteq> []"
    "free_text (butlast line) \<Longrightarrow> sections0 (butlast line) = Some (Str [])"
    "\<not> free_text (butlast line) \<Longrightarrow> sections0 (butlast line) = Some (Lst [])"
proof -
  show k: "sections0 (butlast line) \<noteq> None"
    using assms by (simp add: is_header_def)
  from sections0_keys [OF k] show "butlast line \<noteq> []"
    using free_text_keys(1,2) list_keys(1-3) by auto
  from sections0_keys [OF k] show "sections0 (butlast line) = Some (Str [])" if "free_text (butlast line)"
    using that free_text_keys(3,4) by (auto simp: free_text_def)
  from sections0_keys [OF k] show "sections0 (butlast line) = Some (Lst [])" if "\<not> free_text (butlast line)"
    using that list_keys(4-6) by (auto simp: free_text_def)
qed

lemma loop_one_block:
  assumes keys: "\<forall>x. (secs x = None) = (sections0 x = None)"
    and wf: "well_formed_block b"
    and fresh: "secs (block_key b) = sections0 (block_key b)"
  shows "loop (c, secs) (fst b # snd b @ rest)
     = loop (Some (block_key b),
         secs(block_key b \<mapsto>
           (if free_text (block_key b) then Str (concat (map (\<lambda>l. SP # strip l) (snd b)))
            else Lst (map (\<lambda>l. entry_of (strip l)) (snd b))))) rest"
proof -
  let ?k = "block_key b"
  have h0: "is_header sections0 (strip (fst b))"
    using wf by (simp add: well_formed_block_def)
  then have h: "is_header secs (strip (fst b))"
    using is_header_same_keys [OF keys] by simp
  have kne: "?k \<noteq> []"
    using header_key(2) [OF h0] by (simp add: block_key_def)
  have step: "loop (c, secs) (fst b # snd b @ rest) = loop (Some ?k, secs) (snd b @ rest)"
    using body_header [OF h, of c] by (simp only: loop.simps sum.case block_key_def)
  show ?thesis
  proof (cases "free_text ?k")
    case True
    have v: "secs ?k = Some (Str [])"
      using header_key(3) [OF h0] True fresh by (simp add: block_key_def)
    have pl: "\<forall>l \<in> set (snd b). \<not> is_header sections0 (strip l) \<and> \<not> startswith_any (strip l) markers"
      using wf True by (simp add: well_formed_block_def list_all_iff)
    have "loop (Some ?k, secs) (snd b @ rest)
        = loop (Some ?k, secs(?k \<mapsto> Str (concat (map (\<lambda>l. SP # strip l) (snd b))))) rest"
      by (rule loop_plain0 [of secs ?k "snd b" rest, OF v kne keys pl])
    with step True show ?thesis by (simp only: if_True)
  next
    case False
    have v: "secs ?k = Some (Lst [])"
      using header_key(4) [OF h0] False fresh by (simp add: block_key_def)
    have bl: "\<forall>l \<in> set (snd b). startswith_any (strip l) markers"
      using wf False by (simp add: well_formed_block_def list_all_iff)
    have "loop (Some ?k, secs) (snd b @ rest)
        = loop (Some ?k, secs(?k \<mapsto> Lst (map (\<lambda>l. entry_of (strip l)) (snd b)))) rest"
      by (rule loop_bullets0 [of secs ?k "snd b" rest, OF v kne keys bl])
    with step False show ?thesis by (simp only: if_False)
  qed
qed

lemma loop_blocks:
  assumes "\<forall>x. (secs x = None) = (sections0 x = None)"
    and "\<forall>b \<in> set blocks. well_formed_block b"
    and "distinct (map block_key blocks)"
    and "\<forall>b \<in> set blocks. secs (block_key b) = sections0 (block_key b)"
  shows "\<exists>c' secs'. loop (c, secs) (block_lines blocks) = Inr (c', secs')
     \<and> (\<forall>b \<in> set blocks. secs' (block_key b) = Some
           (if free_text (block_key b) then Str (concat (map (\<lambda>l. SP # strip l) (snd b)))
            else Lst (map (\<lambda>l. entry_of (strip l)) (snd b))))
     \<and> (\<forall>k. k \<notin> block_key ` set blocks \<longrightarrow> secs' k = secs k)"
  using assms
proof (induction blocks arbitrary: c secs)
  case Nil
  then show ?case by (simp add: block_lines_def)
next
  case (Cons b bs)
  let ?k = "block_key b"
  let ?v = "if free_text ?k then Str (concat (map (\<lambda>l. SP # strip l) (snd b)))
            else Lst (map (\<lambda>l. entry_of (strip l)) (snd b))"
  let ?secs = "secs(?k \<mapsto> ?v)"
  have wf: "well_formed_block b" using Cons.prems(2) by simp
  have fresh: "secs ?k = sections0 ?k" using Cons.prems(4) by simp
  have lines: "block_lines (b # bs) = fst b # snd b @ block_lines bs"
    by (simp add: block_lines_def)
  have step: "loop (c, secs) (block_lines (b # bs)) = loop (Some ?k, ?secs) (block_lines bs)"
    unfolding lines by (rule loop_one_block [OF Cons.prems(1) wf fresh])
  have "is_header sections0 (strip (fst b))"
    using wf by (simp add: well_formed_block_def)
  then have "sections0 ?k \<noteq> None"
    using header_key(1) by (simp add: block_key_def)
  then obtain v0 where v0: "secs ?k = Some v0"
    using fresh by auto
  have keys: "\<forall>x. (?secs x = None) = (sections0 x = None)"
    using Cons.prems(1) v0 by (rule same_keys_update)
  have notin: "?k \<notin> block_key ` set bs"
    using Cons.prems(3) by simp
  have wfs: "\<forall>b' \<in> set bs. well_formed_block b'" using Cons.prems(2) by simp
  have dist: "distinct (map block_key bs)" using Cons.prems(3) by simp
  have freshs: "\<forall>b' \<in> set bs. ?secs (block_key b') = sections0 (block_key b')"
  proof
    fix b'
    assume b': "b' \<in> set bs"
    then have "block_key b' \<noteq> ?k" using notin by (metis imageI)
    then have "?secs (block_key b') = secs (block_key b')" by (rule fun_upd_other)
    with Cons.prems(4) b' show "?secs (block_key b') = sections0 (block_key b')" by simp
  qed
  from Cons.IH [of ?secs "Some ?k", OF keys wfs dist freshs]
  obtain c' secs' where l: "loop (Some ?k, ?secs) (block_lines bs) = Inr (c', secs')"
    and vals: "\<forall>b' \<in> set bs. secs' (block_key b') = Some
           (if free_text (block_key b') then Str (concat (map (\<lambda>l. SP # strip l) (snd b')))
            else Lst (map (\<lambda>l. entry_of (strip l)) (snd b')))"
    and same: "\<forall>k. k \<notin> block_key ` set bs \<longrightarrow> secs' k = ?secs k"
    by blast
  have "secs' ?k = ?secs ?k"
    using same notin by blast
  then have here: "secs' ?k = Some ?v"
    by (simp only: fun_upd_same)
  have other: "\<forall>k. k \<notin> block_key ` set (b # bs) \<longrightarrow> secs' k = secs k"
  proof (intro allI impI)
    fix k
    assume k: "k \<notin> block_key ` set (b # bs)"
    then have ne: "k \<noteq> ?k" and out: "k \<notin> block_key ` set bs" by auto
    from out same have "secs' k = ?secs k" by blast
    also from ne have "?secs k = secs k" by (rule fun_upd_other)
    finally show "secs' k = secs k" .
  qed
  have all: "\<forall>b' \<in> set (b # bs). secs' (block_key b') = Some
           (if free_text (block_key b') then Str (concat (map (\<lambda>l. SP # strip l) (snd b')))
            else Lst (map (\<lambda>l. entry_of (strip l)) (snd b')))"
    using here vals by simp
  have "loop (c, secs) (block_lines (b # bs)) = Inr (c', secs')"
    using step l by (simp only:)
  with all other show ?case by blast
qed

text \<open>
  Claim C6, as the code has it. A line that begins with one of the three markers
  while a list section is current adds one entry to that section's list: the line
  with every leading and trailing marker character and space removed, then the
  white space around the rest. This entry is the line without its marker and the
  white space around it whenever that remainder is empty or neither begins nor ends
  with a marker character. Hence an input of well-formed blocks, no label twice, in
  any order and after any lines that are not headers, each list label followed by
  bullet lines, gives for each list section exactly one entry per bullet line, in
  the order of the lines; a free-text label followed by plain lines gets these
  lines, each behind a space; a label without a block keeps its default.
\<close>

theorem bullet_lines_become_entries:
  "(secs k = Some (Lst xs) \<and> k \<noteq> [] \<and> startswith_any (strip l) markers
      \<and> \<not> is_header secs (strip l) \<longrightarrow>
      body (Some k, secs) l = Inr (Some k, secs(k \<mapsto> Lst (xs @ [entry_of (strip l)]))))
   \<and> (startswith_any line markers
      \<and> (strip (tl line) = []
         \<or> (hd (strip (tl line)) \<notin> set strip_set \<and> last (strip (tl line)) \<notin> set strip_set)) \<longrightarrow>
      entry_of line = spec_entry line)
   \<and> (split_nl raw = pre @ block_lines blocks
      \<and> (\<forall>l \<in> set pre. \<not> is_header sections0 (strip l))
      \<and> (\<forall>b \<in> set blocks. well_formed_block b)
      \<and> distinct (map block_key blocks) \<longrightarrow>
      (\<exists>res. parse raw = Inr res
         \<and> (\<forall>b \<in> set blocks. \<not> free_text (block_key b) \<longrightarrow>
               res (block_key b) = Some (Lst (map (\<lambda>l. entry_of (strip l)) (snd b))))
         \<and> (\<forall>b \<in> set blocks. free_text (block_key b) \<longrightarrow>
               res (block_key b) = Some (Str (concat (map (\<lambda>l. SP # strip l) (snd b)))))
         \<and> (\<forall>k. k \<notin> block_key ` set blocks \<longrightarrow> res k = sections0 k)))"
proof (intro conjI impI)
  assume "secs k = Some (Lst xs) \<and> k \<noteq> [] \<and> startswith_any (strip l) markers
      \<and> \<not> is_header secs (strip l)"
  then show "body (Some k, secs) l = Inr (Some k, secs(k \<mapsto> Lst (xs @ [entry_of (strip l)])))"
    using body_bullet_line [of secs k xs l] by blast
next
  assume "startswith_any line markers
      \<and> (strip (tl line) = []
         \<or> (hd (strip (tl line)) \<notin> set strip_set \<and> last (strip (tl line)) \<notin> set strip_set))"
  then show "entry_of line = spec_entry line"
    using entry_matches_spec [of line] by blast
next
  assume h: "split_nl raw = pre @ block_lines blocks
      \<and> (\<forall>l \<in> set pre. \<not> is_header sections0 (strip l))
      \<and> (\<forall>b \<in> set blocks. well_formed_block b)
      \<and> distinct (map block_key blocks)"
  then have s: "split_nl raw = pre @ block_lines blocks"
    and p: "\<forall>l \<in> set pre. \<not> is_header sections0 (strip l)"
    and wf: "\<forall>b \<in> set blocks. well_formed_block b"
    and d: "distinct (map block_key blocks)"
    by blast+
  have k0: "\<forall>x. (sections0 x = None) = (sections0 x = None)" by simp
  have f0: "\<forall>b \<in> set blocks. sections0 (block_key b) = sections0 (block_key b)" by simp
  from loop_blocks [of sections0 blocks None, OF k0 wf d f0]
  obtain c' res where l: "loop (None, sections0) (block_lines blocks) = Inr (c', res)"
    and vals: "\<forall>b \<in> set blocks. res (block_key b) = Some
           (if free_text (block_key b) then Str (concat (map (\<lambda>l. SP # strip l) (snd b)))
            else Lst (map (\<lambda>l. entry_of (strip l)) (snd b)))"
    and same: "\<forall>k. k \<notin> block_key ` set blocks \<longrightarrow> res k = sections0 k"
    by blast
  have "loop (None, sections0) (pre @ block_lines blocks) = Inr (c', res)"
    using loop_no_section [OF p] l by (simp add: loop_append)
  then have "parse raw = Inr res"
    by (simp add: parse_def s)
  moreover have "\<forall>b \<in> set blocks. \<not> free_text (block_key b) \<longrightarrow>
      res (block_key b) = Some (Lst (map (\<lambda>l. entry_of (strip l)) (snd b)))"
    using vals by simp
  moreover have "\<forall>b \<in> set blocks. free_text (block_key b) \<longrightarrow>
      res (block_key b) = Some (Str (concat (map (\<lambda>l. SP # strip l) (snd b))))"
    using vals by simp
  ultimately show "\<exists>res. parse raw = Inr res
         \<and> (\<forall>b \<in> set blocks. \<not> free_text (block_key b) \<longrightarrow>
               res (block_key b) = Some (Lst (map (\<lambda>l. entry_of (strip l)) (snd b))))
         \<and> (\<forall>b \<in> set blocks. free_text (block_key b) \<longrightarrow>
               res (block_key b) = Some (Str (concat (map (\<lambda>l. SP # strip l) (snd b)))))
         \<and> (\<forall>k. k \<notin> block_key ` set blocks \<longrightarrow> res k = sections0 k)"
    using same by blast
qed

theorem bullet_lines_become_entries_witness:
  "body (Some K_ENABLES, sections0) (u ''  - Pricing by size '')
     = Inr (Some K_ENABLES, sections0(K_ENABLES \<mapsto> Lst [u ''Pricing by size'']))
   \<and> entry_of (u ''- Pricing by size'') = spec_entry (u ''- Pricing by size'')
   \<and> (\<exists>res. parse (u ''Here is the analysis.''
          @ NL # K_ACTIONS @ COLON # NL # u ''- Promote large sizes''
          @ NL # SP # K_OVERVIEW @ COLON # SP # NL # u ''Pizza sales''
          @ NL # K_LIMITATIONS @ COLON # NL # BULLET # u '' One year only''
          @ NL # K_ENABLES @ COLON # NL # u ''- Pricing'' @ NL # u ''* Staffing''
          @ NL # K_DOMAIN @ COLON # NL # u ''Food retail'') = Inr res
        \<and> res K_ACTIONS = Some (Lst [u ''Promote large sizes''])
        \<and> res K_OVERVIEW = Some (Str (u '' Pizza sales''))
        \<and> res K_LIMITATIONS = Some (Lst [u ''One year only''])
        \<and> res K_ENABLES = Some (Lst [u ''Pricing'', u ''Staffing''])
        \<and> res K_DOMAIN = Some (Str (u '' Food retail'')))"
proof -
  let ?raw = "u ''Here is the analysis.''
          @ NL # K_ACTIONS @ COLON # NL # u ''- Promote large sizes''
          @ NL # SP # K_OVERVIEW @ COLON # SP # NL # u ''Pizza sales''
          @ NL # K_LIMITATIONS @ COLON # NL # BULLET # u '' One year only''
          @ NL # K_ENABLES @ COLON # NL # u ''- Pricing'' @ NL # u ''* Staffing''
          @ NL # K_DOMAIN @ COLON # NL # u ''Food retail''"
  let ?l = "u ''  - Pricing by size ''"
  let ?line = "u ''- Pricing by size''"
  let ?pre = "[u ''Here is the analysis.'']"
  let ?b1 = "(K_ACTIONS @ [COLON], [u ''- Promote large sizes''])"
  let ?b2 = "(SP # K_OVERVIEW @ [COLON, SP], [u ''Pizza sales''])"
  let ?b3 = "(K_LIMITATIONS @ [COLON], [BULLET # u '' One year only''])"
  let ?b4 = "(K_ENABLES @ [COLON], [u ''- Pricing'', u ''* Staffing''])"
  let ?b5 = "(K_DOMAIN @ [COLON], [u ''Food retail''])"
  let ?blocks = "[?b1, ?b2, ?b3, ?b4, ?b5]"
  note ev = u_def chr_defs key_defs line_defs entry_of_def strip_chars_def strip_set_def
  have a1: "sections0 K_ENABLES = Some (Lst []) \<and> K_ENABLES \<noteq> []
      \<and> startswith_any (strip ?l) markers \<and> \<not> is_header sections0 (strip ?l)"
    by (simp add: ev sections0_def)
  have a2: "startswith_any ?line markers
      \<and> (strip (tl ?line) = []
         \<or> (hd (strip (tl ?line)) \<notin> set strip_set \<and> last (strip (tl ?line)) \<notin> set strip_set))"
    by (simp add: ev)
  have keys: "block_key ?b1 = K_ACTIONS" "block_key ?b2 = K_OVERVIEW" "block_key ?b3 = K_LIMITATIONS"
      "block_key ?b4 = K_ENABLES" "block_key ?b5 = K_DOMAIN"
    by (simp_all add: block_key_def ev)
  have ft: "\<not> free_text K_ACTIONS" "free_text K_OVERVIEW" "\<not> free_text K_LIMITATIONS"
      "\<not> free_text K_ENABLES" "free_text K_DOMAIN"
    using keys_distinct by (auto simp: free_text_def)
  have a3: "split_nl ?raw = ?pre @ block_lines ?blocks"
    by (simp add: block_lines_def u_def chr_defs key_defs)
  have a4: "\<forall>l \<in> set ?pre. \<not> is_header sections0 (strip l)"
    by (simp add: ev sections0_def)
  have w1: "well_formed_block ?b1" unfolding well_formed_block_def keys using ft
    by (simp add: ev sections0_def)
  have w2: "well_formed_block ?b2" unfolding well_formed_block_def keys using ft
    by (simp add: ev sections0_def)
  have w3: "well_formed_block ?b3" unfolding well_formed_block_def keys using ft
    by (simp add: ev sections0_def)
  have w4: "well_formed_block ?b4" unfolding well_formed_block_def keys using ft
    by (simp add: ev sections0_def)
  have w5: "well_formed_block ?b5" unfolding well_formed_block_def keys using ft
    by (simp add: ev sections0_def)
  have a5: "\<forall>b \<in> set ?blocks. well_formed_block b"
    using w1 w2 w3 w4 w5 by simp
  have a6: "distinct (map block_key ?blocks)"
    using keys_distinct by (simp add: keys)
  have e1: "entry_of (strip ?l) = u ''Pricing by size''"
    by (simp add: ev)
  have e2: "concat (map (\<lambda>l. SP # strip l) (snd ?b2)) = u '' Pizza sales''"
      "concat (map (\<lambda>l. SP # strip l) (snd ?b5)) = u '' Food retail''"
      "map (\<lambda>l. entry_of (strip l)) (snd ?b4) = [u ''Pricing'', u ''Staffing'']"
      "map (\<lambda>l. entry_of (strip l)) (snd ?b3) = [u ''One year only'']"
      "map (\<lambda>l. entry_of (strip l)) (snd ?b1) = [u ''Promote large sizes'']"
    by (simp_all add: ev)
  note t = bullet_lines_become_entries
        [of sections0 K_ENABLES "[]" ?l ?line ?raw ?pre ?blocks]
  from t a1 have r1: "body (Some K_ENABLES, sections0) ?l
        = Inr (Some K_ENABLES, sections0(K_ENABLES \<mapsto> Lst ([] @ [entry_of (strip ?l)])))"
    by blast
  from t a2 have r2: "entry_of ?line = spec_entry ?line"
    by blast
  from t a3 a4 a5 a6 obtain res where p: "parse ?raw = Inr res"
    and lists: "\<forall>b \<in> set ?blocks. \<not> free_text (block_key b) \<longrightarrow>
               res (block_key b) = Some (Lst (map (\<lambda>l. entry_of (strip l)) (snd b)))"
    and texts: "\<forall>b \<in> set ?blocks. free_text (block_key b) \<longrightarrow>
               res (block_key b) = Some (Str (concat (map (\<lambda>l. SP # strip l) (snd b))))"
    by blast
  have v1: "res K_ACTIONS = Some (Lst [u ''Promote large sizes''])"
    using lists [rule_format, of ?b1] keys(1) ft(1) e2(5) by simp
  have v2: "res K_OVERVIEW = Some (Str (u '' Pizza sales''))"
    using texts [rule_format, of ?b2] keys(2) ft(2) e2(1) by simp
  have v3: "res K_LIMITATIONS = Some (Lst [u ''One year only''])"
    using lists [rule_format, of ?b3] keys(3) ft(3) e2(4) by simp
  have v4: "res K_ENABLES = Some (Lst [u ''Pricing'', u ''Staffing''])"
    using lists [rule_format, of ?b4] keys(4) ft(4) e2(3) by simp
  have v5: "res K_DOMAIN = Some (Str (u '' Food retail''))"
    using texts [rule_format, of ?b5] keys(5) ft(5) e2(2) by simp
  have r1': "body (Some K_ENABLES, sections0) ?l
        = Inr (Some K_ENABLES, sections0(K_ENABLES \<mapsto> Lst [u ''Pricing by size'']))"
    using r1 unfolding e1 by (simp only: append_Nil)
  from p v1 v2 v3 v4 v5 have "\<exists>res. parse ?raw = Inr res
        \<and> res K_ACTIONS = Some (Lst [u ''Promote large sizes''])
        \<and> res K_OVERVIEW = Some (Str (u '' Pizza sales''))
        \<and> res K_LIMITATIONS = Some (Lst [u ''One year only''])
        \<and> res K_ENABLES = Some (Lst [u ''Pricing'', u ''Staffing''])
        \<and> res K_DOMAIN = Some (Str (u '' Food retail''))"
    by blast
  with r1' r2 show ?thesis by (intro conjI)
qed

end
